theory Spec2Isabelle
  imports Main "HOL-Library.Char_ord" "HOL-Library.List_Lexorder"
begin

section \<open>Python strings\<close>

text \<open>
  A Python \<open>str\<close> is modelled as a \<^typ>\<open>string\<close>. Every character the email grammar
  and the keyword lists mention is ASCII; a character outside ASCII belongs to none of the
  classes below and is left alone by \<open>lower\<close>.
\<close>

definition is_upper :: "char \<Rightarrow> bool" where
  "is_upper c = (CHR ''A'' \<le> c \<and> c \<le> CHR ''Z'')"

definition is_lower :: "char \<Rightarrow> bool" where
  "is_lower c = (CHR ''a'' \<le> c \<and> c \<le> CHR ''z'')"

definition is_digit :: "char \<Rightarrow> bool" where
  "is_digit c = (CHR ''0'' \<le> c \<and> c \<le> CHR ''9'')"

definition lower_char :: "char \<Rightarrow> char" where
  "lower_char c = (if is_upper c then char_of (of_char c + (32::nat)) else c)"

text \<open>\<open>s.lower()\<close>\<close>

definition lower :: "string \<Rightarrow> string" where
  "lower s = map lower_char s"

text \<open>\<open>s.startswith(p)\<close> and \<open>s.endswith(p)\<close>\<close>

fun startswith :: "string \<Rightarrow> string \<Rightarrow> bool" where
  "startswith s [] = True"
| "startswith [] (p # ps) = False"
| "startswith (c # cs) (p # ps) = (c = p \<and> startswith cs ps)"

definition endswith :: "string \<Rightarrow> string \<Rightarrow> bool" where
  "endswith s p = startswith (rev s) (rev p)"

text \<open>\<open>sub in s\<close>\<close>

fun str_in :: "string \<Rightarrow> string \<Rightarrow> bool" where
  "str_in sub [] = (sub = [])"
| "str_in sub (c # cs) = (startswith (c # cs) sub \<or> str_in sub cs)"

text \<open>
  \<open>s.count(sub)\<close>: the occurrences of \<open>sub\<close>, scanned from the left without overlap.
  (For the empty \<open>sub\<close> Python counts the gaps; the code never asks that.)
\<close>

function str_count :: "string \<Rightarrow> string \<Rightarrow> nat" where
  "str_count sub [] = 0"
| "str_count sub (c # cs) =
     (if sub \<noteq> [] \<and> startswith (c # cs) sub
      then Suc (str_count sub (drop (length sub) (c # cs)))
      else str_count sub cs)"
  by pat_completeness auto
termination
  by (relation "measure (\<lambda>(sub, s). length s)") auto

text \<open>
  \<open>s.split(sep)\<close> for a separator that is not empty: \<open>cur\<close> is the piece being read.
  The result is never the empty list.
\<close>

function split_from :: "string \<Rightarrow> string \<Rightarrow> string \<Rightarrow> string list" where
  "split_from sep cur [] = [cur]"
| "split_from sep cur (c # cs) =
     (if sep \<noteq> [] \<and> startswith (c # cs) sep
      then cur # split_from sep [] (drop (length sep) (c # cs))
      else split_from sep (cur @ [c]) cs)"
  by pat_completeness auto
termination
  by (relation "measure (\<lambda>(sep, cur, s). length s)") auto

definition py_split :: "string \<Rightarrow> string \<Rightarrow> string list" where
  "py_split sep s = split_from sep [] s"

text \<open>\<open>xs[i]\<close> for \<open>i \<ge> 0\<close>: \<open>None\<close> stands for IndexError.\<close>

definition py_index :: "'a list \<Rightarrow> nat \<Rightarrow> 'a option" where
  "py_index xs i = (if i < length xs then Some (xs ! i) else None)"

text \<open>\<open>sep.join(xs)\<close>\<close>

fun join :: "string \<Rightarrow> string list \<Rightarrow> string" where
  "join sep [] = []"
| "join sep [x] = x"
| "join sep (x # y # ys) = x @ sep @ join sep (y # ys)"

text \<open>\<open>str(n)\<close> for an integer.\<close>

definition digit_char :: "nat \<Rightarrow> char" where
  "digit_char d = char_of (48 + d)"

fun str_nat :: "nat \<Rightarrow> string" where
  "str_nat n = (if n < 10 then [digit_char n] else str_nat (n div 10) @ [digit_char (n mod 10)])"

definition str_int :: "int \<Rightarrow> string" where
  "str_int i = (if i < 0 then ''-'' @ str_nat (nat (- i)) else str_nat (nat i))"

text \<open>
  \<open>repr(s)\<close> of a string: single quotes, unless the string holds a single quote and no
  double quote; a backslash before a backslash and before the quote in use; tab, newline
  and carriage return by their escape letters, and every other character that is not
  printable by its two hexadecimal digits.
\<close>

definition hex_digit :: "nat \<Rightarrow> char" where
  "hex_digit n = ''0123456789abcdef'' ! n"

definition is_printable :: "char \<Rightarrow> bool" where
  "is_printable c =
     (let n = (of_char c :: nat)
      in \<not> (n < 0x20 \<or> n = 0x7F \<or> (0x80 \<le> n \<and> n \<le> 0xA0) \<or> n = 0xAD))"

definition repr_char :: "char \<Rightarrow> char \<Rightarrow> string" where
  "repr_char quote c =
     (if c = quote \<or> c = CHR 0x5C then [CHR 0x5C, c]
      else if c = CHR 0x09 then [CHR 0x5C, CHR ''t'']
      else if c = CHR 0x0A then [CHR 0x5C, CHR ''n'']
      else if c = CHR 0x0D then [CHR 0x5C, CHR ''r'']
      else if \<not> is_printable c then
        [CHR 0x5C, CHR ''x'', hex_digit (of_char c div 16), hex_digit (of_char c mod 16)]
      else [c])"

definition py_repr :: "string \<Rightarrow> string" where
  "py_repr s =
     (let quote = (if CHR 0x27 \<in> set s \<and> CHR 0x22 \<notin> set s then CHR 0x22 else CHR 0x27)
      in [quote] @ concat (map (repr_char quote) s) @ [quote])"

section \<open>The regular expression of the Email Extractor\<close>

text \<open>
  The pattern \<^verbatim>\<open>[a-zA-Z0-9._%+-]+@[a-zA-Z0-9.-]+\.[a-zA-Z]{2,}\<close> is a sequence of
  character classes, each taken once or repeated greedily at least \<open>n\<close> times. The
  matcher is the backtracking one of Python's \<open>re\<close>: \<open>seq_matches\<close> lists every way to
  match at the start of the text in the order the engine tries them (a greedy repetition
  tries its longest run first), each with the text that is left; the engine's answer is the
  first.
\<close>

datatype atom = One "char \<Rightarrow> bool" | AtLeast nat "char \<Rightarrow> bool"

type_synonym regex = "atom list"

fun star_matches :: "(char \<Rightarrow> bool) \<Rightarrow> string \<Rightarrow> (string \<times> string) list" where
  "star_matches P [] = [([], [])]"
| "star_matches P (c # cs) =
     (if P c then map (\<lambda>(m, r). (c # m, r)) (star_matches P cs) else []) @ [([], c # cs)]"

fun atom_matches :: "atom \<Rightarrow> string \<Rightarrow> (string \<times> string) list" where
  "atom_matches (One P) [] = []"
| "atom_matches (One P) (c # cs) = (if P c then [([c], cs)] else [])"
| "atom_matches (AtLeast n P) s = filter (\<lambda>(m, r). n \<le> length m) (star_matches P s)"

fun seq_matches :: "regex \<Rightarrow> string \<Rightarrow> (string \<times> string) list" where
  "seq_matches [] s = [([], s)]"
| "seq_matches (a # as) s =
     concat (map (\<lambda>(m1, r1). map (\<lambda>(m2, r2). (m1 @ m2, r2)) (seq_matches as r1))
                 (atom_matches a s))"

definition re_match :: "regex \<Rightarrow> string \<Rightarrow> string option" where
  "re_match rx s = (case seq_matches rx s of [] \<Rightarrow> None | (m, r) # _ \<Rightarrow> Some m)"

text \<open>
  \<open>re.findall(rx, s)\<close> for a pattern without groups: the matches from left to right,
  each search starting where the previous match ended, one character further after a
  failure (or after an empty match, which the email pattern never produces).
\<close>

function findall :: "regex \<Rightarrow> string \<Rightarrow> string list" where
  "findall rx [] = (case re_match rx [] of None \<Rightarrow> [] | Some m \<Rightarrow> [m])"
| "findall rx (c # cs) =
     (case re_match rx (c # cs) of
        None \<Rightarrow> findall rx cs
      | Some m \<Rightarrow> m # (if m = [] then findall rx cs
                       else findall rx (drop (length m) (c # cs))))"
  by pat_completeness auto
termination
  by (relation "measure (\<lambda>(rx, s). length s)") auto

definition is_alpha :: "char \<Rightarrow> bool" where
  "is_alpha c = (is_lower c \<or> is_upper c)"

definition local_char :: "char \<Rightarrow> bool" where
  "local_char c = (is_alpha c \<or> is_digit c \<or> c \<in> set ''._%+-'')"

definition domain_char :: "char \<Rightarrow> bool" where
  "domain_char c = (is_alpha c \<or> is_digit c \<or> c \<in> set ''.-'')"

definition email_regex :: regex where
  "email_regex =
     [AtLeast 1 local_char, One (\<lambda>c. c = CHR ''@''), AtLeast 1 domain_char,
      One (\<lambda>c. c = CHR ''.''), AtLeast 2 is_alpha]"

section \<open>Email Extractor\<close>

definition common_image_extensions :: "string list" where
  "common_image_extensions =
     [''.png'', ''.jpg'', ''.jpeg'', ''.gif'', ''.webp'', ''.svg'', ''.bmp'', ''.tiff'']"

definition false_positive_patterns :: "string list" where
  "false_positive_patterns =
     [''example.com'', ''yourdomain.com'', ''email@domain.com'', ''sentry.io'']"

text \<open>
  The body of the loop over \<open>emails_found\<close>, as a predicate on \<open>email_lower\<close>: true when
  the body reaches \<open>filtered_emails.add(email_lower)\<close>. \<open>parts[1]\<close> is read only when
  \<open>len(parts) == 2\<close>, and \<open>split\<close> never returns an empty list, so \<open>[-1]\<close> is its last
  element.
\<close>

definition passes_filters :: "string \<Rightarrow> bool" where
  "passes_filters email_lower =
     (if list_ex (\<lambda>ext. str_in ext email_lower) common_image_extensions then False
      else if list_ex (\<lambda>fp_pattern. str_in fp_pattern email_lower) false_positive_patterns
      then False
      else if length email_lower > 255 \<or> str_in '' '' email_lower
              \<or> str_count ''@'' email_lower \<noteq> 1 then False
      else let parts = py_split ''@'' email_lower in
        if length parts = 2 \<and> str_in ''.'' (parts ! 1)
           \<and> length (last (py_split ''.'' (parts ! 1))) \<ge> 2
        then \<not> (startswith email_lower [CHR 0x27] \<or> endswith email_lower [CHR 0x27])
        else False)"

definition find_emails_on_page :: "string \<Rightarrow> string \<Rightarrow> string set" where
  "find_emails_on_page url content =
     (let emails_found = set (findall email_regex content)
      in Set.filter passes_filters (lower ` emails_found))"

section \<open>Outcomes of a thread: return, exception, blocked on the lock\<close>

text \<open>
  An exception is represented by its description \<open>str(e)\<close>. A piece of code run by one
  thread either returns a value, raises an exception, or never proceeds because it waits
  for a lock that will not be released; each outcome carries the state reached.
\<close>

type_synonym exn = string

datatype ('a, 's) result = Return 'a 's | Raised exn 's | Blocked 's

fun final :: "('a, 's) result \<Rightarrow> 's" where
  "final (Return x s) = s"
| "final (Raised e s) = s"
| "final (Blocked s) = s"

type_synonym ('a, 's) prog = "'s \<Rightarrow> ('a, 's) result"

definition ret :: "'a \<Rightarrow> ('a, 's) prog" where
  "ret x s = Return x s"

definition gets :: "('s \<Rightarrow> 'a) \<Rightarrow> ('a, 's) prog" where
  "gets f s = Return (f s) s"

definition modify :: "('s \<Rightarrow> 's) \<Rightarrow> (unit, 's) prog" where
  "modify f s = Return () (f s)"

text \<open>A call of a library function that may raise.\<close>

definition call :: "exn + 'a \<Rightarrow> ('a, 's) prog" where
  "call v s = (case v of Inl e \<Rightarrow> Raised e s | Inr x \<Rightarrow> Return x s)"

text \<open>Sequencing: an exception or a block ends the sequence.\<close>

definition bnd :: "('a, 's) prog \<Rightarrow> ('a \<Rightarrow> ('b, 's) prog) \<Rightarrow> ('b, 's) prog" where
  "bnd m f s =
     (case m s of Return x s' \<Rightarrow> f x s' | Raised e s' \<Rightarrow> Raised e s' | Blocked s' \<Rightarrow> Blocked s')"

text \<open>\<open>try: m except Exception as e: h e\<close>\<close>

definition try_except :: "('a, 's) prog \<Rightarrow> (exn \<Rightarrow> ('a, 's) prog) \<Rightarrow> ('a, 's) prog" where
  "try_except m h s =
     (case m s of Return x s' \<Rightarrow> Return x s' | Raised e s' \<Rightarrow> h e s' | Blocked s' \<Rightarrow> Blocked s')"

text \<open>\<open>for x in xs: body x\<close>\<close>

primrec for_each :: "'a list \<Rightarrow> ('a \<Rightarrow> (unit, 's) prog) \<Rightarrow> (unit, 's) prog" where
  "for_each [] body = ret ()"
| "for_each (x # xs) body = bnd (body x) (\<lambda>_. for_each xs body)"

text \<open>
  Code that works on a part \<open>get s\<close> of a larger state \<open>s\<close> (the world inside the local
  variables of a function).
\<close>

definition zoom :: "('s \<Rightarrow> 'w) \<Rightarrow> ('w \<Rightarrow> 's \<Rightarrow> 's) \<Rightarrow> ('a, 'w) prog \<Rightarrow> ('a, 's) prog" where
  "zoom get put m s =
     (case m (get s) of Return x w \<Rightarrow> Return x (put w s) | Raised e w \<Rightarrow> Raised e (put w s)
      | Blocked w \<Rightarrow> Blocked (put w s))"

text \<open>
  A function call with local variables: \<open>init\<close> builds the frame around the world, \<open>get\<close>
  reads the world back when the call ends.
\<close>

definition frame :: "('w \<Rightarrow> 's) \<Rightarrow> ('s \<Rightarrow> 'w) \<Rightarrow> ('a, 's) prog \<Rightarrow> ('a, 'w) prog" where
  "frame init get m w =
     (case m (init w) of Return x s \<Rightarrow> Return x (get s) | Raised e s \<Rightarrow> Raised e (get s)
      | Blocked s \<Rightarrow> Blocked (get s))"

section \<open>Task Store\<close>

datatype status = Pending | Processing | Complete | Error

text \<open>
  The dictionary stored under a task id. Its keys are created together in
  \<open>request_scrape\<close> and never deleted; \<open>results_summary\<close> is added on completion. \<open>None\<close>
  in \<open>filename\<close> and \<open>error_message\<close> is Python's \<open>None\<close>.
\<close>

record task =
  status :: status
  urls :: "string list"
  progress_messages :: "string list"
  filename :: "string option"
  error_message :: "string option"
  last_message_index_sent :: int
  results_summary :: "string option"

text \<open>
  What a worker thread can change: the \<open>tasks\<close> dictionary, the lock \<open>tasks_lock\<close>, the
  files written under \<open>TEMP_DIR\<close> (a CSV file as its rows) and, as a history, the addresses
  requested over HTTP so far. \<open>lock_held\<close> says that the lock is owned by a thread that
  does not release it: \<open>threading.Lock\<close> is not reentrant, so a thread that takes it again
  inside its own critical section waits forever, and so does every other thread after it.
  The process-level \<open>logging\<close> channel is not modelled.
\<close>

record world =
  tasks :: "string \<rightharpoonup> task"
  lock_held :: bool
  http_log :: "string list"
  files :: "string \<rightharpoonup> string list list"

text \<open>\<open>with tasks_lock: body\<close>\<close>

definition with_tasks_lock :: "('a, world) prog \<Rightarrow> ('a, world) prog" where
  "with_tasks_lock body w =
     (if lock_held w then Blocked w
      else case body (w\<lparr>lock_held := True\<rparr>) of
             Return x w' \<Rightarrow> Return x (w'\<lparr>lock_held := False\<rparr>)
           | Raised e w' \<Rightarrow> Raised e (w'\<lparr>lock_held := False\<rparr>)
           | Blocked w' \<Rightarrow> Blocked w')"

definition append_message :: "string \<Rightarrow> string \<Rightarrow> world \<Rightarrow> world" where
  "append_message task_id message w =
     (case tasks w task_id of
        Some t \<Rightarrow> w\<lparr>tasks := (tasks w)(task_id \<mapsto>
                     t\<lparr>progress_messages := progress_messages t @ [message]\<rparr>)\<rparr>
      | None \<Rightarrow> w)"

definition log_progress :: "string \<Rightarrow> string \<Rightarrow> (unit, world) prog" where
  "log_progress task_id message = with_tasks_lock (modify (append_message task_id message))"

text \<open>The record \<open>request_scrape\<close> stores for a new task.\<close>

definition new_task :: "string list \<Rightarrow> task" where
  "new_task websites_to_process =
     \<lparr>status = Pending, urls = websites_to_process, progress_messages = [''Task initiated.''],
      filename = None, error_message = None, last_message_index_sent = - 1,
      results_summary = None\<rparr>"

section \<open>External collaborators\<close>

text \<open>
  A fetched and parsed page: \<open>soup.get_text(separator=' ')\<close> and
  \<open>soup.find_all('a', href=True)\<close>, each anchor with its \<open>href\<close> and its text.
\<close>

record anchor =
  href :: string
  link_text :: string

record page =
  visible_text :: string
  anchors :: "anchor list"

text \<open>
  The library functions the code calls, as parameters: \<open>urlparse\<close> (reduced to the scheme
  and the netloc the code reads) and \<open>urljoin\<close>, which raise ValueError on some inputs;
  \<open>fetch n url\<close>, the answer to the \<open>n\<close>-th HTTP request when it asks for \<open>url\<close> (the GET,
  \<open>raise_for_status\<close> and the parse, any of which may raise); \<open>set_order\<close>, the order in
  which Python iterates a set; \<open>open_write\<close>, opening a file for writing.
\<close>

record env =
  urlparse :: "string \<Rightarrow> exn + (string \<times> string)"
  urljoin :: "string \<Rightarrow> string \<Rightarrow> exn + string"
  fetch :: "nat \<Rightarrow> string \<Rightarrow> exn + page"
  set_order :: "string set \<Rightarrow> string list"
  open_write :: "string \<Rightarrow> exn + unit"

section \<open>URL Validator\<close>

definition is_valid_url :: "env \<Rightarrow> string \<Rightarrow> exn + bool" where
  "is_valid_url env url =
     (case urlparse env url of
        Inl e \<Rightarrow> Inl e
      | Inr (scheme, netloc) \<Rightarrow>
          Inr (scheme \<noteq> [] \<and> netloc \<noteq> [] \<and> scheme \<notin> set [''mailto'', ''tel'']))"

text \<open>\<open>urlparse(url).netloc\<close>\<close>

definition netloc_of :: "env \<Rightarrow> string \<Rightarrow> exn + string" where
  "netloc_of env url =
     (case urlparse env url of Inl e \<Rightarrow> Inl e | Inr (scheme, netloc) \<Rightarrow> Inr netloc)"

section \<open>Crawl Engine\<close>

definition MAX_DEPTH :: int where
  "MAX_DEPTH = 1"

definition TARGET_PAGE_KEYWORDS :: "string list" where
  "TARGET_PAGE_KEYWORDS =
     [''about'', ''contact'', ''support'', ''contact-us'', ''about-us'', ''contactus'', ''aboutus'']"

text \<open>
  The local variables of one invocation of \<open>scrape_website_emails_for_task\<close>, around the
  world. The delay before each request is real time and is left out.
\<close>

record crawl_state =
  visited_urls :: "string set"
  emails_collected :: "string set"
  urls_to_visit :: "(string \<times> nat) list"
  page_text :: string
  found_target_page_on_current :: bool
  wld :: world

abbreviation in_world :: "('a, world) prog \<Rightarrow> ('a, crawl_state) prog" where
  "in_world \<equiv> zoom wld (\<lambda>w st. st\<lparr>wld := w\<rparr>)"

text \<open>
  \<open>requests.get\<close>, \<open>raise_for_status\<close> and the parse: the request is recorded, then the
  page comes back or an exception is raised.
\<close>

definition http_get :: "env \<Rightarrow> string \<Rightarrow> (page, crawl_state) prog" where
  "http_get env url st =
     (let n = length (http_log (wld st));
          st' = st\<lparr>wld := (wld st)\<lparr>http_log := http_log (wld st) @ [url]\<rparr>\<rparr>
      in case fetch env n url of Inl e \<Rightarrow> Raised e st' | Inr p \<Rightarrow> Return p st')"

text \<open>
  The body of the first loop over the anchors: a \<open>mailto:\<close> href adds its address to the
  page text; IndexError from \<open>[1]\<close> or \<open>[0]\<close> goes to the warning.
\<close>

definition mailto_step :: "string \<Rightarrow> string \<Rightarrow> anchor \<Rightarrow> (unit, crawl_state) prog" where
  "mailto_step task_id current_url a_tag =
     (if startswith (href a_tag) ''mailto:'' then
        (case py_index (py_split ''mailto:'' (href a_tag)) 1 of
           None \<Rightarrow>
             in_world (log_progress task_id
               (''Warning: Malformed mailto link on '' @ current_url @ '': '' @ href a_tag))
         | Some rest \<Rightarrow>
             (case py_index (py_split ''?'' rest) 0 of
                None \<Rightarrow>
                  in_world (log_progress task_id
                    (''Warning: Malformed mailto link on '' @ current_url @ '': '' @ href a_tag))
              | Some email_in_mailto \<Rightarrow>
                  modify (\<lambda>st. st\<lparr>page_text := page_text st @ '' '' @ email_in_mailto\<rparr>)))
      else ret ())"

definition is_target_link :: "anchor \<Rightarrow> bool" where
  "is_target_link link =
     (let href_attr_lower = lower (href link);
          link_text_lower = lower (link_text link)
      in list_ex (\<lambda>keyword. str_in keyword href_attr_lower \<or> str_in keyword link_text_lower)
           TARGET_PAGE_KEYWORDS)"

text \<open>The body of the loop over the links of a page at depth 0.\<close>

definition link_step ::
  "env \<Rightarrow> string \<Rightarrow> string \<Rightarrow> string \<Rightarrow> nat \<Rightarrow> anchor \<Rightarrow> (unit, crawl_state) prog" where
  "link_step env task_id base_domain current_url current_processing_depth link =
     (if href link = [] then ret ()
      else if is_target_link link then
        bnd (call (urljoin env current_url (href link))) (\<lambda>next_url.
        bnd (call (netloc_of env next_url)) (\<lambda>netloc.
        bnd (gets (\<lambda>st. netloc = base_domain \<and> next_url \<notin> visited_urls st)) (\<lambda>same_and_new.
        if same_and_new then
          bnd (call (is_valid_url env next_url)) (\<lambda>valid.
          bnd (gets (\<lambda>st. valid \<and> next_url \<notin> set (map fst (urls_to_visit st)))) (\<lambda>enqueue.
          if enqueue then
            bnd (modify (\<lambda>st. st\<lparr>urls_to_visit :=
                   urls_to_visit st @ [(next_url, current_processing_depth + 1)]\<rparr>)) (\<lambda>_.
            bnd (in_world (log_progress task_id (''    Queued target page: '' @ next_url))) (\<lambda>_.
            modify (\<lambda>st. st\<lparr>found_target_page_on_current := True\<rparr>)))
          else ret ()))
        else ret ())))
      else ret ())"

text \<open>Link discovery on the current page (the block under the depth test).\<close>

definition discover_links ::
  "env \<Rightarrow> string \<Rightarrow> string \<Rightarrow> string \<Rightarrow> nat \<Rightarrow> page \<Rightarrow> (unit, crawl_state) prog" where
  "discover_links env task_id base_domain current_url current_processing_depth pg =
     bnd (in_world (log_progress task_id
            (''  Searching for target pages on '' @ current_url @ ''...''))) (\<lambda>_.
     bnd (modify (\<lambda>st. st\<lparr>found_target_page_on_current := False\<rparr>)) (\<lambda>_.
     bnd (for_each (anchors pg)
            (link_step env task_id base_domain current_url current_processing_depth)) (\<lambda>_.
     bnd (gets found_target_page_on_current) (\<lambda>found.
     if \<not> found then
       in_world (log_progress task_id
         (''  No new target pages found or queued from '' @ current_url @ ''.''))
     else ret ()))))"

text \<open>What the \<open>try\<close> block does with the page once it is fetched and parsed.\<close>

definition scan_page ::
  "env \<Rightarrow> string \<Rightarrow> int \<Rightarrow> string \<Rightarrow> string \<Rightarrow> nat \<Rightarrow> page \<Rightarrow> (unit, crawl_state) prog" where
  "scan_page env task_id max_depth_setting base_domain current_url current_processing_depth pg =
     bnd (modify (\<lambda>st. st\<lparr>page_text := visible_text pg\<rparr>)) (\<lambda>_.
     bnd (for_each (anchors pg) (mailto_step task_id current_url)) (\<lambda>_.
     bnd (gets page_text) (\<lambda>text.
     let emails_on_page = find_emails_on_page current_url text in
     bnd (if emails_on_page \<noteq> {} then
            bnd (in_world (log_progress task_id
                   (''  Found emails: '' @ join '', '' (set_order env emails_on_page)
                    @ '' on '' @ current_url))) (\<lambda>_.
            modify (\<lambda>st. st\<lparr>emails_collected := emails_collected st \<union> emails_on_page\<rparr>))
          else ret ()) (\<lambda>_.
     if max_depth_setting \<ge> 1 \<and> current_processing_depth = 0 then
       discover_links env task_id base_domain current_url current_processing_depth pg
     else ret ()))))"

text \<open>
  A visit: the address is marked visited, the progress line is written, and the \<open>try\<close>
  block fetches and scans the page; any exception in it is logged and absorbed.
\<close>

definition visit ::
  "env \<Rightarrow> string \<Rightarrow> int \<Rightarrow> string \<Rightarrow> string \<Rightarrow> nat \<Rightarrow> (unit, crawl_state) prog" where
  "visit env task_id max_depth_setting base_domain current_url current_processing_depth =
     bnd (modify (\<lambda>st. st\<lparr>visited_urls := insert current_url (visited_urls st)\<rparr>)) (\<lambda>_.
     let page_type = (if current_processing_depth = 0 then ''Homepage'' else ''Target Page'') in
     bnd (in_world (log_progress task_id
            (''Scraping ('' @ page_type @ ''): '' @ current_url))) (\<lambda>_.
     try_except
       (bnd (http_get env current_url)
          (scan_page env task_id max_depth_setting base_domain current_url
             current_processing_depth))
       (\<lambda>e. in_world (log_progress task_id
               (''  Error scraping '' @ current_url @ '': '' @ e)))))"

text \<open>
  One turn of the \<open>while\<close> loop after \<open>urls_to_visit.pop(0)\<close>: the two \<open>continue\<close> tests,
  then the visit.
\<close>

definition loop_body ::
  "env \<Rightarrow> string \<Rightarrow> int \<Rightarrow> string \<Rightarrow> string \<Rightarrow> nat \<Rightarrow> (unit, crawl_state) prog" where
  "loop_body env task_id max_depth_setting base_domain current_url current_processing_depth =
     bnd (gets (\<lambda>st. current_url \<in> visited_urls st)) (\<lambda>seen.
     if seen then ret ()
     else
       bnd (call (is_valid_url env current_url)) (\<lambda>valid.
       if \<not> valid then ret ()
       else
         bnd (call (netloc_of env current_url)) (\<lambda>netloc.
         if netloc \<noteq> base_domain then ret ()
         else visit env task_id max_depth_setting base_domain current_url
                current_processing_depth)))"

section \<open>Predicates used in the proofs about the extractor\<close>

text \<open>
  The strings the pattern describes: a local part, \<open>@\<close>, a domain, a dot and at least two
  letters. Used in the proofs only.
\<close>

definition email_shape :: "string \<Rightarrow> bool" where
  "email_shape m = (\<exists>loc dom tld. m = loc @ ''@'' @ dom @ ''.'' @ tld
      \<and> loc \<noteq> [] \<and> list_all local_char loc \<and> dom \<noteq> [] \<and> list_all domain_char dom
      \<and> 2 \<le> length tld \<and> list_all is_alpha tld)"

text \<open>
  The variant of the extractor that keeps only the image-extension, placeholder-domain and
  length filters: the comparison object of the last claim about the extractor.
\<close>

definition passes_simplified :: "string \<Rightarrow> bool" where
  "passes_simplified email_lower =
     (if list_ex (\<lambda>ext. str_in ext email_lower) common_image_extensions then False
      else if list_ex (\<lambda>fp_pattern. str_in fp_pattern email_lower) false_positive_patterns
      then False
      else if length email_lower > 255 then False
      else True)"

definition find_emails_simplified :: "string \<Rightarrow> string set" where
  "find_emails_simplified content =
     (let emails_found = set (findall email_regex content)
      in Set.filter passes_simplified (lower ` emails_found))"

declare findall.simps [simp del] split_from.simps [simp del] str_count.simps [simp del]

declare str_nat.simps [simp del]

section \<open>Facts about the Email Extractor\<close>

subsection \<open>Character classes\<close>

lemma char_eq_nat: "(c = d) = ((of_char c :: nat) = of_char d)"
  by simp

lemmas class_defs = local_char_def domain_char_def is_alpha_def is_lower_def is_upper_def
  is_digit_def less_eq_char_def lower_char_def

lemma local_char_lower:
  assumes "local_char c"
  shows "lower_char c \<noteq> CHR ''@''" "lower_char c \<noteq> CHR '' ''" "lower_char c \<noteq> CHR 0x27"
  using assms by (auto simp: class_defs char_eq_nat [of "char_of _"])

lemma domain_char_lower:
  assumes "domain_char c"
  shows "lower_char c \<noteq> CHR ''@''" "lower_char c \<noteq> CHR '' ''"
  using assms by (auto simp: class_defs char_eq_nat [of "char_of _"])

lemma is_alpha_lower:
  assumes "is_alpha c"
  shows "lower_char c \<noteq> CHR ''@''" "lower_char c \<noteq> CHR '' ''" "lower_char c \<noteq> CHR 0x27"
    "lower_char c \<noteq> CHR ''.''"
  using assms by (auto simp: class_defs char_eq_nat [of "char_of _"])

lemma lower_char_fixed: "lower_char CHR ''@'' = CHR ''@''" "lower_char CHR ''.'' = CHR ''.''"
  by (simp_all add: class_defs)

subsection \<open>Splitting and counting on one character\<close>

lemma str_in_char: "str_in [c] s = (c \<in> set s)"
  by (induction s) auto

lemma str_count_char: "str_count [c] s = count_list s c"
  by (induction s) (auto simp: str_count.simps)

lemma split_from_char_absent: "c \<notin> set s \<Longrightarrow> split_from [c] cur s = [cur @ s]"
  by (induction s arbitrary: cur) (auto simp: split_from.simps)

lemma split_from_char_first:
  "c \<notin> set xs \<Longrightarrow> split_from [c] cur (xs @ c # ys) = (cur @ xs) # split_from [c] [] ys"
  by (induction xs arbitrary: cur) (auto simp: split_from.simps)

lemma split_from_nonempty: "split_from sep cur s \<noteq> []"
  by (induction sep cur s rule: split_from.induct) (auto simp: split_from.simps)

lemma last_split_from_char:
  "c \<notin> set ys \<Longrightarrow> last (split_from [c] cur (xs @ c # ys)) = ys"
proof (induction xs arbitrary: cur)
  case Nil
  then show ?case by (simp add: split_from.simps split_from_char_absent)
next
  case (Cons x xs)
  then show ?case by (simp add: split_from.simps split_from_nonempty)
qed

subsection \<open>What the email pattern matches\<close>

lemma star_matches_sound:
  "(m, r) \<in> set (star_matches P s) \<Longrightarrow> list_all P m \<and> s = m @ r"
  by (induction s arbitrary: m r) (auto split: if_splits)

lemma atom_matches_One:
  "(m, r) \<in> set (atom_matches (One P) s) \<Longrightarrow> \<exists>c. m = [c] \<and> P c \<and> s = c # r"
  by (cases s) (auto split: if_splits)

lemma atom_matches_AtLeast:
  "(m, r) \<in> set (atom_matches (AtLeast n P) s) \<Longrightarrow> n \<le> length m \<and> list_all P m \<and> s = m @ r"
  by (auto dest: star_matches_sound)

lemma seq_matches_email:
  assumes "(m, r) \<in> set (seq_matches email_regex s)"
  shows "email_shape m"
proof -
  from assms obtain m1 r1 m2 r2 m3 r3 m4 r4 m5 where
    a1: "(m1, r1) \<in> set (atom_matches (AtLeast 1 local_char) s)" and
    a2: "(m2, r2) \<in> set (atom_matches (One (\<lambda>c. c = CHR ''@'')) r1)" and
    a3: "(m3, r3) \<in> set (atom_matches (AtLeast 1 domain_char) r2)" and
    a4: "(m4, r4) \<in> set (atom_matches (One (\<lambda>c. c = CHR ''.'')) r3)" and
    a5: "(m5, r) \<in> set (atom_matches (AtLeast 2 is_alpha) r4)" and
    m: "m = m1 @ m2 @ m3 @ m4 @ m5"
    unfolding email_regex_def by (fastforce simp del: atom_matches.simps)
  from atom_matches_AtLeast [OF a1] have l: "m1 \<noteq> []" "list_all local_char m1" by auto
  from atom_matches_One [OF a2] have at: "m2 = ''@''" by auto
  from atom_matches_AtLeast [OF a3] have d: "m3 \<noteq> []" "list_all domain_char m3" by auto
  from atom_matches_One [OF a4] have dot: "m4 = ''.''" by auto
  from atom_matches_AtLeast [OF a5] have t: "2 \<le> length m5" "list_all is_alpha m5" by auto
  show ?thesis unfolding email_shape_def using m l at d dot t by blast
qed

lemma re_match_email: "re_match email_regex s = Some m \<Longrightarrow> email_shape m"
proof -
  assume "re_match email_regex s = Some m"
  then obtain r where "(m, r) \<in> set (seq_matches email_regex s)"
    by (auto simp: re_match_def split: list.splits)
  then show ?thesis by (rule seq_matches_email)
qed

lemma re_match_email_Nil: "re_match email_regex [] = None"
  by code_simp

lemma findall_email_shape: "m \<in> set (findall email_regex s) \<Longrightarrow> email_shape m"
proof (induction s rule: length_induct)
  case (1 s)
  show ?case
  proof (cases s)
    case Nil
    with 1 show ?thesis by (simp add: findall.simps re_match_email_Nil)
  next
    case (Cons c cs)
    show ?thesis
    proof (cases "re_match email_regex (c # cs)")
      case None
      with 1(2) Cons have "m \<in> set (findall email_regex cs)" by (simp add: findall.simps)
      moreover have "length cs < length s" using Cons by simp
      ultimately show ?thesis using 1(1) by blast
    next
      case (Some m')
      have sh: "email_shape m'" using Some by (rule re_match_email)
      then have ne: "m' \<noteq> []" by (auto simp: email_shape_def)
      from 1(2) Cons Some ne have "m = m' \<or> m \<in> set (findall email_regex (drop (length m') (c # cs)))"
        by (simp add: findall.simps)
      then show ?thesis
      proof
        assume "m = m'" with sh show ?thesis by simp
      next
        assume *: "m \<in> set (findall email_regex (drop (length m') (c # cs)))"
        have "length (drop (length m') (c # cs)) < length s" using ne Cons by simp
        with 1(1) * show ?thesis by blast
      qed
    qed
  qed
qed

lemma notin_lower:
  "list_all P xs \<Longrightarrow> (\<And>c. P c \<Longrightarrow> lower_char c \<noteq> d) \<Longrightarrow> d \<notin> set (lower xs)"
  by (induction xs) (auto simp: lower_def)

lemma lower_shape:
  assumes "email_shape m"
  shows "\<exists>loc dom tld. lower m = loc @ ''@'' @ dom @ ''.'' @ tld
      \<and> loc \<noteq> [] \<and> CHR ''@'' \<notin> set loc \<and> CHR '' '' \<notin> set loc \<and> hd loc \<noteq> CHR 0x27
      \<and> CHR ''@'' \<notin> set dom \<and> CHR '' '' \<notin> set dom
      \<and> 2 \<le> length tld \<and> CHR ''@'' \<notin> set tld \<and> CHR '' '' \<notin> set tld
      \<and> CHR ''.'' \<notin> set tld \<and> last tld \<noteq> CHR 0x27"
proof -
  from assms obtain loc dom tld where m: "m = loc @ ''@'' @ dom @ ''.'' @ tld"
    and loc: "loc \<noteq> []" "list_all local_char loc"
    and dom: "list_all domain_char dom"
    and tld: "2 \<le> length tld" "list_all is_alpha tld"
    by (auto simp: email_shape_def)
  have 1: "lower m = lower loc @ ''@'' @ lower dom @ ''.'' @ lower tld"
    by (simp add: m lower_def lower_char_fixed)
  have 2: "lower loc \<noteq> []" "CHR ''@'' \<notin> set (lower loc)" "CHR '' '' \<notin> set (lower loc)"
    using loc(1) notin_lower [OF loc(2) local_char_lower(1)]
      notin_lower [OF loc(2) local_char_lower(2)] by (simp_all add: lower_def)
  have 3: "hd (lower loc) \<noteq> CHR 0x27"
    using loc local_char_lower(3) by (cases loc) (auto simp: lower_def)
  have 4: "CHR ''@'' \<notin> set (lower dom)" "CHR '' '' \<notin> set (lower dom)"
    using notin_lower [OF dom domain_char_lower(1)] notin_lower [OF dom domain_char_lower(2)]
    by simp_all
  have 5: "2 \<le> length (lower tld)" "CHR ''@'' \<notin> set (lower tld)"
    "CHR '' '' \<notin> set (lower tld)" "CHR ''.'' \<notin> set (lower tld)"
    using tld(1) notin_lower [OF tld(2) is_alpha_lower(1)]
      notin_lower [OF tld(2) is_alpha_lower(2)] notin_lower [OF tld(2) is_alpha_lower(4)]
    by (simp_all add: lower_def)
  have "tld \<noteq> []" using tld by auto
  then have 6: "last (lower tld) \<noteq> CHR 0x27"
    using tld(2) is_alpha_lower(3) by (simp add: lower_def last_map list_all_iff)
  from 1 2 3 4 5 6 show ?thesis by blast
qed

lemma redundant_checks:
  assumes "email_shape m"
  shows "\<not> str_in '' '' (lower m)" "str_count ''@'' (lower m) = 1"
    "length (py_split ''@'' (lower m)) = 2"
    "str_in ''.'' (py_split ''@'' (lower m) ! 1)"
    "2 \<le> length (last (py_split ''.'' (py_split ''@'' (lower m) ! 1)))"
    "\<not> startswith (lower m) [CHR 0x27]" "\<not> endswith (lower m) [CHR 0x27]"
proof -
  from lower_shape [OF assms] obtain loc dom tld where
    e: "lower m = loc @ ''@'' @ dom @ ''.'' @ tld" and
    loc: "loc \<noteq> []" "CHR ''@'' \<notin> set loc" "CHR '' '' \<notin> set loc" "hd loc \<noteq> CHR 0x27" and
    dom: "CHR ''@'' \<notin> set dom" "CHR '' '' \<notin> set dom" and
    tld: "2 \<le> length tld" "CHR ''@'' \<notin> set tld" "CHR '' '' \<notin> set tld"
      "CHR ''.'' \<notin> set tld" "last tld \<noteq> CHR 0x27"
    by blast
  show "\<not> str_in '' '' (lower m)"
    using loc dom tld by (simp add: e str_in_char)
  show "str_count ''@'' (lower m) = 1"
    using loc dom tld by (simp add: e str_count_char)
  have sp: "py_split ''@'' (lower m) = [loc, dom @ ''.'' @ tld]"
    using loc(2) dom(1) tld(2) split_from_char_first [of "CHR ''@''" loc "[]" "dom @ ''.'' @ tld"]
    by (simp add: e py_split_def split_from_char_absent)
  show "length (py_split ''@'' (lower m)) = 2" by (simp add: sp)
  show "str_in ''.'' (py_split ''@'' (lower m) ! 1)" by (simp add: sp str_in_char)
  have p1: "py_split ''@'' (lower m) ! 1 = dom @ ''.'' @ tld" by (simp add: sp)
  have p2: "last (py_split ''.'' (dom @ ''.'' @ tld)) = tld"
    using tld(4) last_split_from_char [of "CHR ''.''" tld "[]" dom] by (simp add: py_split_def)
  show "2 \<le> length (last (py_split ''.'' (py_split ''@'' (lower m) ! 1)))"
    unfolding p1 p2 by (rule tld(1))
  show "\<not> startswith (lower m) [CHR 0x27]"
    using loc(1,4) by (cases loc) (auto simp: e)
  have "tld \<noteq> []" using tld(1) by auto
  then show "\<not> endswith (lower m) [CHR 0x27]"
    using tld(5) by (cases tld rule: rev_cases) (auto simp: e endswith_def)
qed

lemma passes_filters_simplified:
  "email_shape m \<Longrightarrow> passes_filters (lower m) = passes_simplified (lower m)"
  using redundant_checks [of m]
  by (simp add: passes_filters_def passes_simplified_def Let_def)

section \<open>Claims about the Email Extractor\<close>

lemma findall_logo_site: "findall email_regex ''logo@site.com/pic.png'' = [''logo@site.com'']"
  by code_simp

lemma findall_admin_example: "findall email_regex ''admin@example.com'' = [''admin@example.com'']"
  by code_simp

lemma findall_logo_png: "findall email_regex ''logo@2x.png'' = [''logo@2x.png'']"
  by code_simp

lemma lower_examples:
  "lower ''logo@site.com'' = ''logo@site.com''"
  "lower ''admin@example.com'' = ''admin@example.com''"
  "lower ''logo@2x.png'' = ''logo@2x.png''"
  by code_simp+

lemma passes_filters_examples:
  "passes_filters ''logo@site.com''"
  "\<not> passes_filters ''admin@example.com''"
  "\<not> passes_filters ''logo@2x.png''"
  by code_simp+

lemma image_filter_rejects_png:
  "list_ex (\<lambda>ext. str_in ext ''logo@2x.png'') common_image_extensions"
  by code_simp

lemma placeholder_filter_rejects_example:
  "list_ex (\<lambda>p. str_in p ''admin@example.com'') false_positive_patterns"
  by code_simp

lemma find_emails_logo_site:
  "find_emails_on_page url ''logo@site.com/pic.png'' = {''logo@site.com''}"
  by (auto simp: find_emails_on_page_def findall_logo_site lower_examples
      passes_filters_examples)

lemma returned_email_passes:
  "e \<in> find_emails_on_page url content \<Longrightarrow> passes_filters e"
  by (auto simp: find_emails_on_page_def)

text \<open>
  Claim C3, as stated, fails for the first of its two tokens. In the text
  \<open>logo@site.com/pic.png\<close> the pattern cannot match the slash, so the candidate is
  \<open>logo@site.com\<close>; it contains no image extension and the extractor returns it.
\<close>

theorem C3_counterexample:
  "find_emails_on_page [] ''logo@site.com/pic.png'' = {''logo@site.com''}"
  by (rule find_emails_logo_site)

text \<open>
  Claim C3, amended: the post-match filters work on the candidate the pattern matched, not
  on the text around it. \<open>admin@example.com\<close> is excluded by the placeholder-domain filter
  and a candidate that itself holds an image extension, such as \<open>logo@2x.png\<close>, by the
  image-extension filter; no returned email contains an image extension or a placeholder
  domain. For the text \<open>logo@site.com/pic.png\<close> the extractor returns \<open>logo@site.com\<close>.
\<close>

theorem C3_filters:
  "find_emails_on_page url ''admin@example.com'' = {}
   \<and> list_ex (\<lambda>p. str_in p ''admin@example.com'') false_positive_patterns
   \<and> find_emails_on_page url ''logo@2x.png'' = {}
   \<and> list_ex (\<lambda>ext. str_in ext ''logo@2x.png'') common_image_extensions
   \<and> find_emails_on_page url ''logo@site.com/pic.png'' = {''logo@site.com''}
   \<and> (e \<in> find_emails_on_page url content \<longrightarrow>
        \<not> list_ex (\<lambda>ext. str_in ext e) common_image_extensions
        \<and> \<not> list_ex (\<lambda>p. str_in p e) false_positive_patterns)"
proof -
  have 1: "find_emails_on_page url ''admin@example.com'' = {}"
    by (auto simp: find_emails_on_page_def findall_admin_example lower_examples
        passes_filters_examples)
  have 2: "find_emails_on_page url ''logo@2x.png'' = {}"
    by (auto simp: find_emails_on_page_def findall_logo_png lower_examples
        passes_filters_examples)
  have 3: "\<not> list_ex (\<lambda>ext. str_in ext e) common_image_extensions
      \<and> \<not> list_ex (\<lambda>p. str_in p e) false_positive_patterns"
    if "e \<in> find_emails_on_page url content"
    using returned_email_passes [OF that]
    by (auto simp: passes_filters_def split: if_splits)
  from 1 2 3 placeholder_filter_rejects_example image_filter_rejects_png find_emails_logo_site
  show ?thesis by blast
qed

lemma find_emails_reach_foo:
  "''foo@bar.com'' \<in> find_emails_on_page [] ''reach foo@bar.com or notanemail@@x''"
  by code_simp

theorem C3_filters_witness:
  "''foo@bar.com'' \<in> find_emails_on_page [] ''reach foo@bar.com or notanemail@@x''
   \<and> \<not> list_ex (\<lambda>ext. str_in ext ''foo@bar.com'') common_image_extensions
   \<and> \<not> list_ex (\<lambda>p. str_in p ''foo@bar.com'') false_positive_patterns
   \<and> find_emails_on_page [] ''admin@example.com'' = {}"
  using C3_filters [where url = "[]" and e = "''foo@bar.com''"
      and content = "''reach foo@bar.com or notanemail@@x''"] find_emails_reach_foo
  by blast

text \<open>
  Claim C9: the \<open>url\<close> argument of \<open>find_emails_on_page\<close> has no influence on its result;
  two calls on the same content return the same set.
\<close>

theorem C9_url_irrelevant:
  "find_emails_on_page url1 content = find_emails_on_page url2 content"
  by (simp add: find_emails_on_page_def)

text \<open>
  Claim C10: every candidate the pattern produces already has no space, exactly one \<open>@\<close>,
  a domain part with a dot whose last label has at least two characters, and no quote at
  either end; so the extractor returns the same set as the variant that keeps only the
  image-extension, placeholder-domain and length filters.
\<close>

theorem C10_redundant_filters:
  "find_emails_on_page url content = find_emails_simplified content
   \<and> list_all (\<lambda>m. \<not> str_in '' '' (lower m) \<and> str_count ''@'' (lower m) = 1
        \<and> length (py_split ''@'' (lower m)) = 2
        \<and> str_in ''.'' (py_split ''@'' (lower m) ! 1)
        \<and> 2 \<le> length (last (py_split ''.'' (py_split ''@'' (lower m) ! 1)))
        \<and> \<not> startswith (lower m) [CHR 0x27] \<and> \<not> endswith (lower m) [CHR 0x27])
      (findall email_regex content)"
proof
  show "find_emails_on_page url content = find_emails_simplified content"
    unfolding find_emails_on_page_def find_emails_simplified_def Let_def
    using findall_email_shape passes_filters_simplified by auto
  show "list_all (\<lambda>m. \<not> str_in '' '' (lower m) \<and> str_count ''@'' (lower m) = 1
        \<and> length (py_split ''@'' (lower m)) = 2
        \<and> str_in ''.'' (py_split ''@'' (lower m) ! 1)
        \<and> 2 \<le> length (last (py_split ''.'' (py_split ''@'' (lower m) ! 1)))
        \<and> \<not> startswith (lower m) [CHR 0x27] \<and> \<not> endswith (lower m) [CHR 0x27])
      (findall email_regex content)"
    unfolding list_all_iff using findall_email_shape redundant_checks by blast
qed

section \<open>Reasoning about outcomes\<close>

text \<open>
  \<open>wp m Qn Qr Qb s\<close>: run from \<open>s\<close>, \<open>m\<close> ends in a state that satisfies \<open>Qn\<close> when it
  returns, \<open>Qr\<close> when it raises and \<open>Qb\<close> when it blocks.
\<close>

definition wp ::
  "('a, 's) prog \<Rightarrow> ('a \<Rightarrow> 's \<Rightarrow> bool) \<Rightarrow> (exn \<Rightarrow> 's \<Rightarrow> bool) \<Rightarrow> ('s \<Rightarrow> bool) \<Rightarrow> 's \<Rightarrow> bool" where
  "wp m Qn Qr Qb s =
     (case m s of Return x s' \<Rightarrow> Qn x s' | Raised e s' \<Rightarrow> Qr e s' | Blocked s' \<Rightarrow> Qb s')"

lemma wp_ret [simp]: "wp (ret x) Qn Qr Qb s = Qn x s"
  by (simp add: wp_def ret_def)

lemma wp_gets [simp]: "wp (gets f) Qn Qr Qb s = Qn (f s) s"
  by (simp add: wp_def gets_def)

lemma wp_modify [simp]: "wp (modify f) Qn Qr Qb s = Qn () (f s)"
  by (simp add: wp_def modify_def)

lemma wp_call [simp]:
  "wp (call v) Qn Qr Qb s = (case v of Inl e \<Rightarrow> Qr e s | Inr x \<Rightarrow> Qn x s)"
  by (simp add: wp_def call_def split: sum.splits)

lemma wp_bnd [simp]: "wp (bnd m f) Qn Qr Qb s = wp m (\<lambda>x. wp (f x) Qn Qr Qb) Qr Qb s"
  by (simp add: wp_def bnd_def split: result.splits)

lemma wp_try_except [simp]:
  "wp (try_except m h) Qn Qr Qb s = wp m Qn (\<lambda>e. wp (h e) Qn Qr Qb) Qb s"
  by (simp add: wp_def try_except_def split: result.splits)

lemma wp_zoom [simp]:
  "wp (zoom get put m) Qn Qr Qb s =
     wp m (\<lambda>x w. Qn x (put w s)) (\<lambda>e w. Qr e (put w s)) (\<lambda>w. Qb (put w s)) (get s)"
  by (simp add: wp_def zoom_def split: result.splits)

lemma wp_frame [simp]:
  "wp (frame init get m) Qn Qr Qb w =
     wp m (\<lambda>x s. Qn x (get s)) (\<lambda>e s. Qr e (get s)) (\<lambda>s. Qb (get s)) (init w)"
  by (simp add: wp_def frame_def split: result.splits)

lemma wp_mono:
  assumes "wp m Qn Qr Qb s"
    and "\<And>x s'. Qn x s' \<Longrightarrow> Qn' x s'" and "\<And>e s'. Qr e s' \<Longrightarrow> Qr' e s'"
    and "\<And>s'. Qb s' \<Longrightarrow> Qb' s'"
  shows "wp m Qn' Qr' Qb' s"
  using assms by (auto simp: wp_def split: result.splits)

lemma wp_for_each:
  assumes "I s"
    and "\<And>x s'. x \<in> set xs \<Longrightarrow> I s' \<Longrightarrow> wp (body x) (\<lambda>_. I) Qr Qb s'"
    and "\<And>s'. I s' \<Longrightarrow> Qn () s'"
  shows "wp (for_each xs body) Qn Qr Qb s"
  using assms
proof (induction xs arbitrary: s)
  case Nil
  then show ?case by simp
next
  case (Cons x xs)
  have "wp (body x) (\<lambda>_. I) Qr Qb s" using Cons.prems by simp
  then show ?case
    unfolding for_each.simps wp_bnd
  proof (rule wp_mono)
    fix u s' assume "I s'"
    then show "wp (for_each xs body) Qn Qr Qb s'"
      using Cons.prems by (intro Cons.IH) auto
  qed auto
qed

lemma unlock_free: "\<not> lock_held w \<Longrightarrow> w\<lparr>lock_held := False\<rparr> = w"
  by (cases w) simp

lemma wp_log_progress [simp]:
  "wp (log_progress task_id message) Qn Qr Qb w =
     (if lock_held w then Qb w else Qn () (append_message task_id message w))"
  by (simp add: wp_def log_progress_def with_tasks_lock_def modify_def append_message_def
      unlock_free split: option.splits)

lemma wp_http_get [simp]:
  "wp (http_get env url) Qn Qr Qb st =
     (let st' = st\<lparr>wld := (wld st)\<lparr>http_log := http_log (wld st) @ [url]\<rparr>\<rparr>
      in case fetch env (length (http_log (wld st))) url of
           Inl e \<Rightarrow> Qr e st' | Inr p \<Rightarrow> Qn p st')"
  by (simp add: wp_def http_get_def Let_def split: sum.splits)

lemma wp_final: "wp m (\<lambda>_. Q) (\<lambda>_. Q) Q s = Q (final (m s))"
  by (cases "m s") (simp_all add: wp_def)

section \<open>What a visit may change\<close>

text \<open>
  \<open>scan_rel\<close> relates the state before the scan of a page to a state during or after it:
  the visited set, the request history, the lock and the files stay as they are, the
  collected emails only grow, and the frontier only grows at its end, by addresses of the
  next depth that passed every test of the enqueue condition.
\<close>

definition scan_rel ::
  "env \<Rightarrow> string \<Rightarrow> int \<Rightarrow> nat \<Rightarrow> crawl_state \<Rightarrow> crawl_state \<Rightarrow> bool" where
  "scan_rel env base_domain max_depth_setting depth st st' =
     (visited_urls st' = visited_urls st
      \<and> http_log (wld st') = http_log (wld st)
      \<and> lock_held (wld st') = lock_held (wld st)
      \<and> files (wld st') = files (wld st)
      \<and> emails_collected st \<subseteq> emails_collected st'
      \<and> (\<exists>new. urls_to_visit st' = urls_to_visit st @ new
            \<and> (new \<noteq> [] \<longrightarrow> depth = 0 \<and> max_depth_setting \<ge> 1)
            \<and> distinct (map fst new)
            \<and> (\<forall>x \<in> set new. snd x = Suc depth
                  \<and> netloc_of env (fst x) = Inr base_domain
                  \<and> is_valid_url env (fst x) = Inr True
                  \<and> fst x \<notin> visited_urls st
                  \<and> fst x \<notin> fst ` set (urls_to_visit st))))"


lemma scan_rel_page_text:
  "scan_rel env bd md d st0 st \<Longrightarrow> scan_rel env bd md d st0 (st\<lparr>page_text := t\<rparr>)"
  by (simp add: scan_rel_def)

lemma scan_rel_found:
  "scan_rel env bd md d st0 st \<Longrightarrow> scan_rel env bd md d st0 (st\<lparr>found_target_page_on_current := b\<rparr>)"
  by (simp add: scan_rel_def)

lemma scan_rel_emails:
  "scan_rel env bd md d st0 st \<Longrightarrow>
   scan_rel env bd md d st0 (st\<lparr>emails_collected := emails_collected st \<union> E\<rparr>)"
  by (auto simp: scan_rel_def)

lemma append_message_fields [simp]:
  "http_log (append_message tid msg w) = http_log w"
  "lock_held (append_message tid msg w) = lock_held w"
  "files (append_message tid msg w) = files w"
  by (simp_all add: append_message_def split: option.splits)

lemma scan_rel_log:
  "scan_rel env bd md d st0 st \<Longrightarrow>
   scan_rel env bd md d st0 (st\<lparr>wld := append_message tid msg (wld st)\<rparr>)"
  by (simp add: scan_rel_def)

lemma scan_rel_enqueue:
  assumes "scan_rel env bd md d st0 st" "d = 0" "md \<ge> 1"
    "netloc_of env n = Inr bd" "is_valid_url env n = Inr True"
    "n \<notin> visited_urls st" "n \<notin> set (map fst (urls_to_visit st))"
  shows "scan_rel env bd md d st0 (st\<lparr>urls_to_visit := urls_to_visit st @ [(n, d + 1)]\<rparr>)"
proof -
  from assms(1) obtain new where new: "urls_to_visit st = urls_to_visit st0 @ new"
    "distinct (map fst new)"
    "\<forall>x \<in> set new. snd x = Suc d \<and> netloc_of env (fst x) = Inr bd
        \<and> is_valid_url env (fst x) = Inr True \<and> fst x \<notin> visited_urls st0
        \<and> fst x \<notin> fst ` set (urls_to_visit st0)"
    and rest: "visited_urls st = visited_urls st0" "http_log (wld st) = http_log (wld st0)"
      "lock_held (wld st) = lock_held (wld st0)" "files (wld st) = files (wld st0)"
      "emails_collected st0 \<subseteq> emails_collected st"
    unfolding scan_rel_def by blast
  let ?new = "new @ [(n, d + 1)]"
  have a: "urls_to_visit st @ [(n, d + 1)] = urls_to_visit st0 @ ?new" by (simp add: new(1))
  have b: "distinct (map fst ?new)" using new(1,2) assms(7) by auto
  have c: "\<forall>x \<in> set ?new. snd x = Suc d \<and> netloc_of env (fst x) = Inr bd
        \<and> is_valid_url env (fst x) = Inr True \<and> fst x \<notin> visited_urls st0
        \<and> fst x \<notin> fst ` set (urls_to_visit st0)"
    using new(1,3) assms(4-7) rest(1) by auto
  have "\<exists>new'. urls_to_visit st @ [(n, d + 1)] = urls_to_visit st0 @ new'
      \<and> (new' \<noteq> [] \<longrightarrow> d = 0 \<and> md \<ge> 1) \<and> distinct (map fst new')
      \<and> (\<forall>x \<in> set new'. snd x = Suc d \<and> netloc_of env (fst x) = Inr bd
        \<and> is_valid_url env (fst x) = Inr True \<and> fst x \<notin> visited_urls st0
        \<and> fst x \<notin> fst ` set (urls_to_visit st0))"
    using a b c assms(2,3) by (intro exI [of _ ?new]) blast
  then show ?thesis
    unfolding scan_rel_def using rest by simp
qed

lemma scan_rel_page_text_iff [simp]:
  "scan_rel env bd md d st0 (st\<lparr>page_text := t\<rparr>) = scan_rel env bd md d st0 st"
  by (simp add: scan_rel_def)

lemma scan_rel_found_iff [simp]:
  "scan_rel env bd md d st0 (st\<lparr>found_target_page_on_current := b\<rparr>) = scan_rel env bd md d st0 st"
  by (simp add: scan_rel_def)

lemma scan_rel_wld_iff [simp]:
  "scan_rel env bd md d st0 (st\<lparr>wld := append_message tid msg w\<rparr>)
     = scan_rel env bd md d st0 (st\<lparr>wld := w\<rparr>)"
  by (simp add: scan_rel_def)

lemma scan_rel_wld_same [simp]:
  "scan_rel env bd md d st0 (st\<lparr>wld := wld st\<rparr>) = scan_rel env bd md d st0 st"
  by (simp add: scan_rel_def)

lemma scan_rel_lock: "scan_rel env bd md d st0 st \<Longrightarrow> lock_held (wld st) = lock_held (wld st0)"
  by (simp add: scan_rel_def)

abbreviation (input) scan_blocked ::
  "env \<Rightarrow> string \<Rightarrow> int \<Rightarrow> nat \<Rightarrow> crawl_state \<Rightarrow> crawl_state \<Rightarrow> bool" where
  "scan_blocked env bd md d st0 \<equiv> (\<lambda>s. scan_rel env bd md d st0 s \<and> lock_held (wld s))"

lemma mailto_step_scan_rel:
  assumes "scan_rel env bd md d st0 st"
  shows "wp (mailto_step tid cur a) (\<lambda>_. scan_rel env bd md d st0) (\<lambda>_. scan_rel env bd md d st0)
           (scan_blocked env bd md d st0) st"
  using assms by (simp add: mailto_step_def split: option.splits)

lemma link_step_scan_rel:
  assumes "scan_rel env bd md d st0 st" "d = 0" "md \<ge> 1"
  shows "wp (link_step env tid bd cur d a) (\<lambda>_. scan_rel env bd md d st0)
           (\<lambda>_. scan_rel env bd md d st0) (scan_blocked env bd md d st0) st"
  using assms scan_rel_enqueue [OF assms(1)]
  by (simp add: link_step_def split: sum.splits)

lemma scan_rel_emails_grow:
  "scan_rel env bd md d st0 st \<Longrightarrow> emails_collected st \<subseteq> E \<Longrightarrow>
   scan_rel env bd md d st0 (st\<lparr>emails_collected := E\<rparr>)"
  by (auto simp: scan_rel_def)

lemma link_loop_scan_rel:
  assumes "scan_rel env bd md d st0 s" "d = 0" "md \<ge> 1"
    and "\<And>s'. scan_rel env bd md d st0 s' \<Longrightarrow> Qn () s'"
  shows "wp (for_each xs (link_step env tid bd cur d)) Qn (\<lambda>_. scan_rel env bd md d st0)
      (scan_blocked env bd md d st0) s"
  using assms by (intro wp_for_each [where I = "scan_rel env bd md d st0"])
    (auto intro: link_step_scan_rel)

lemma mailto_loop_scan_rel:
  assumes "scan_rel env bd md d st0 s"
    and "\<And>s'. scan_rel env bd md d st0 s' \<Longrightarrow> Qn () s'"
  shows "wp (for_each xs (mailto_step tid cur)) Qn (\<lambda>_. scan_rel env bd md d st0)
      (scan_blocked env bd md d st0) s"
  using assms by (intro wp_for_each [where I = "scan_rel env bd md d st0"])
    (auto intro: mailto_step_scan_rel)

lemma discover_links_scan_rel:
  assumes "scan_rel env bd md d st0 st" "d = 0" "md \<ge> 1"
  shows "wp (discover_links env tid bd cur d pg) (\<lambda>_. scan_rel env bd md d st0)
           (\<lambda>_. scan_rel env bd md d st0) (scan_blocked env bd md d st0) st"
  unfolding discover_links_def using assms
  by (auto intro!: link_loop_scan_rel)

lemma scan_page_scan_rel:
  assumes "scan_rel env bd md d st0 st"
  shows "wp (scan_page env tid md bd cur d pg) (\<lambda>_. scan_rel env bd md d st0)
           (\<lambda>_. scan_rel env bd md d st0) (scan_blocked env bd md d st0) st"
  unfolding scan_page_def using assms
  by (auto simp: Let_def intro!: mailto_loop_scan_rel discover_links_scan_rel
      scan_rel_emails_grow)

definition marked :: "string \<Rightarrow> crawl_state \<Rightarrow> crawl_state" where
  "marked u st = st\<lparr>visited_urls := insert u (visited_urls st)\<rparr>"

definition requested :: "string \<Rightarrow> crawl_state \<Rightarrow> crawl_state" where
  "requested u st = st\<lparr>visited_urls := insert u (visited_urls st),
      wld := (wld st)\<lparr>http_log := http_log (wld st) @ [u]\<rparr>\<rparr>"

lemma marked_fields [simp]:
  "visited_urls (marked u st) = insert u (visited_urls st)"
  "emails_collected (marked u st) = emails_collected st"
  "urls_to_visit (marked u st) = urls_to_visit st"
  "wld (marked u st) = wld st"
  by (simp_all add: marked_def)

lemma requested_fields [simp]:
  "visited_urls (requested u st) = insert u (visited_urls st)"
  "emails_collected (requested u st) = emails_collected st"
  "urls_to_visit (requested u st) = urls_to_visit st"
  "http_log (wld (requested u st)) = http_log (wld st) @ [u]"
  "lock_held (wld (requested u st)) = lock_held (wld st)"
  "files (wld (requested u st)) = files (wld st)"
  "tasks (wld (requested u st)) = tasks (wld st)"
  by (simp_all add: requested_def)

lemma scan_page_conseq:
  assumes "scan_rel env bd md d st0 s"
    and "\<And>x s'. scan_rel env bd md d st0 s' \<Longrightarrow> Qn x s'"
    and "\<And>e s'. scan_rel env bd md d st0 s' \<Longrightarrow> Qr e s'"
    and "\<And>s'. scan_rel env bd md d st0 s' \<Longrightarrow> lock_held (wld s') \<Longrightarrow> Qb s'"
  shows "wp (scan_page env tid md bd cur d pg) Qn Qr Qb s"
  using scan_page_scan_rel [OF assms(1)] assms(2-4) by (rule wp_mono) auto

lemma visit_effect:
  "wp (visit env tid md bd u d)
     (\<lambda>_ s'. \<not> lock_held (wld st) \<and> scan_rel env bd md d (requested u st) s')
     (\<lambda>_ _. False)
     (\<lambda>s'. lock_held (wld st)
        \<and> (scan_rel env bd md d (marked u st) s' \<or> scan_rel env bd md d (requested u st) s'))
     st"
  unfolding visit_def
  apply (simp add: Let_def split: sum.splits)
  apply (intro conjI impI allI)
      apply (simp_all add: scan_rel_def)
   apply (rule scan_page_conseq [where ?st0.0 = "requested u st"]; simp add: scan_rel_def)
  apply (rule scan_page_conseq [where ?st0.0 = "requested u st"]; simp add: scan_rel_def)
  done

lemma valid_netloc:
  "is_valid_url env u = Inr b \<Longrightarrow> \<exists>n. netloc_of env u = Inr n"
  by (auto simp: is_valid_url_def netloc_of_def split: sum.splits)

lemma visit_conseq:
  assumes "\<And>x s'. \<not> lock_held (wld st) \<Longrightarrow> scan_rel env bd md d (requested u st) s' \<Longrightarrow> Qn x s'"
    and "\<And>s'. lock_held (wld st) \<Longrightarrow>
           scan_rel env bd md d (marked u st) s' \<or> scan_rel env bd md d (requested u st) s'
           \<Longrightarrow> Qb s'"
  shows "wp (visit env tid md bd u d) Qn Qr Qb st"
  by (rule wp_mono [OF visit_effect [of env tid md bd u d st]]) (use assms in auto)

lemma loop_body_effect:
  "wp (loop_body env tid md bd u d)
     (\<lambda>_ s'. s' = st \<or> (u \<notin> visited_urls st \<and> is_valid_url env u = Inr True
        \<and> netloc_of env u = Inr bd \<and> \<not> lock_held (wld st)
        \<and> scan_rel env bd md d (requested u st) s'))
     (\<lambda>e s'. s' = st \<and> u \<notin> visited_urls st \<and> is_valid_url env u = Inl e)
     (\<lambda>s'. lock_held (wld st) \<and> u \<notin> visited_urls st \<and> is_valid_url env u = Inr True
        \<and> netloc_of env u = Inr bd
        \<and> (scan_rel env bd md d (marked u st) s' \<or> scan_rel env bd md d (requested u st) s'))
     st"
  unfolding loop_body_def
  using valid_netloc [of env u True]
  by (auto split: sum.splits intro!: visit_conseq dest: scan_rel_lock)

lemma wp_ReturnD: "wp m Qn Qr Qb s \<Longrightarrow> m s = Return x s' \<Longrightarrow> Qn x s'"
  by (simp add: wp_def)

lemma wp_RaisedD: "wp m Qn Qr Qb s \<Longrightarrow> m s = Raised e s' \<Longrightarrow> Qr e s'"
  by (simp add: wp_def)

lemma wp_BlockedD: "wp m Qn Qr Qb s \<Longrightarrow> m s = Blocked s' \<Longrightarrow> Qb s'"
  by (simp add: wp_def)

lemma loop_body_frontier:
  assumes "loop_body env tid md bd u d st = Return x st'"
  shows "\<exists>new. urls_to_visit st' = urls_to_visit st @ new
      \<and> (\<forall>y \<in> set new. snd y = Suc d) \<and> (new \<noteq> [] \<longrightarrow> d = 0)"
  using wp_ReturnD [OF loop_body_effect assms]
  by (auto simp: scan_rel_def)

section \<open>The crawl loop\<close>

text \<open>
  The loop ends: each turn removes the front of the frontier, and only a turn that removes
  an element of depth 0 can add elements, all of depth 1.
\<close>

definition crawl_measure :: "crawl_state \<Rightarrow> nat \<times> nat" where
  "crawl_measure st =
     (length (filter (\<lambda>y. snd y = 0) (urls_to_visit st)), length (urls_to_visit st))"

function crawl_loop :: "env \<Rightarrow> string \<Rightarrow> int \<Rightarrow> string \<Rightarrow> (string set, crawl_state) prog" where
  "crawl_loop env task_id max_depth_setting base_domain st =
     (case urls_to_visit st of
        [] \<Rightarrow> Return (emails_collected st) st
      | (current_url, current_processing_depth) # rest \<Rightarrow>
          (case loop_body env task_id max_depth_setting base_domain current_url
                  current_processing_depth (st\<lparr>urls_to_visit := rest\<rparr>) of
             Return _ st' \<Rightarrow> crawl_loop env task_id max_depth_setting base_domain st'
           | Raised e st' \<Rightarrow> Raised e st'
           | Blocked st' \<Rightarrow> Blocked st'))"
  by pat_completeness auto
termination
proof (relation "inv_image (less_than <*lex*> less_than)
    (\<lambda>(env, task_id, max_depth_setting, base_domain, st). crawl_measure st)")
  show "wf (inv_image (less_than <*lex*> less_than)
    (\<lambda>(env :: env, task_id :: string, max_depth_setting :: int, base_domain :: string, st).
       crawl_measure st))"
    by (intro wf_inv_image wf_lex_prod wf_less_than)
next
  fix env task_id max_depth_setting base_domain st x21 x22 u d x st'
  assume front: "urls_to_visit st = x21 # x22" "(u, d) = x21"
    and body: "loop_body env task_id max_depth_setting base_domain u d
         (st\<lparr>urls_to_visit := x22\<rparr>) = Return x st'"
  from loop_body_frontier [OF body] obtain new where
    new: "urls_to_visit st' = x22 @ new" "\<forall>y \<in> set new. snd y = Suc d" "new \<noteq> [] \<longrightarrow> d = 0"
    by auto
  have f: "filter (\<lambda>y. snd y = 0) new = []" using new(2) by (auto simp: filter_empty_conv)
  have "(crawl_measure st', crawl_measure st) \<in> less_than <*lex*> less_than"
  proof (cases "new = []")
    case True
    then show ?thesis using new(1) front by (auto simp: crawl_measure_def)
  next
    case False
    then have "d = 0" using new(3) by simp
    then show ?thesis using new(1) front f by (auto simp: crawl_measure_def)
  qed
  then show "((env, task_id, max_depth_setting, base_domain, st'),
              (env, task_id, max_depth_setting, base_domain, st))
      \<in> inv_image (less_than <*lex*> less_than)
          (\<lambda>(env, task_id, max_depth_setting, base_domain, st). crawl_measure st)"
    by simp
qed

text \<open>
  The function itself. The block that reports an invalid base address does what
  \<open>log_progress\<close> does. \<open>page_text\<close> and \<open>found_target_page_on_current\<close> are assigned
  before they are read; their first values here are never used.
\<close>

definition initial_crawl_state :: "string \<Rightarrow> world \<Rightarrow> crawl_state" where
  "initial_crawl_state base_url w =
     \<lparr>visited_urls = {}, emails_collected = {}, urls_to_visit = [(base_url, 0)],
      page_text = [], found_target_page_on_current = False, wld = w\<rparr>"

definition scrape_website_emails_for_task ::
  "env \<Rightarrow> string \<Rightarrow> string \<Rightarrow> int \<Rightarrow> (string set, world) prog" where
  "scrape_website_emails_for_task env base_url task_id max_depth_setting =
     bnd (call (is_valid_url env base_url)) (\<lambda>valid.
     if \<not> valid then
       bnd (log_progress task_id (''Skipping invalid base URL: '' @ base_url)) (\<lambda>_. ret {})
     else
       bnd (call (netloc_of env base_url)) (\<lambda>base_domain.
       frame (initial_crawl_state base_url) wld
         (bnd (in_world (log_progress task_id
                 (''Starting scrape for: '' @ base_url @ '' with depth ''
                  @ str_int max_depth_setting))) (\<lambda>_.
          crawl_loop env task_id max_depth_setting base_domain))))"

section \<open>Task Runner\<close>

definition TEMP_DIR :: string where
  "TEMP_DIR = ''temp_files''"

text \<open>\<open>os.path.join(a, b)\<close> on a POSIX system.\<close>

definition path_join :: "string \<Rightarrow> string \<Rightarrow> string" where
  "path_join a b =
     (if startswith b ''/'' then b
      else if a = [] \<or> endswith a ''/'' then a @ b
      else a @ ''/'' @ b)"

text \<open>\<open>str(KeyError(k))\<close> for a string key: the \<open>repr\<close> of the key.\<close>

definition key_error :: "string \<Rightarrow> exn" where
  "key_error k = py_repr k"

record runner_state =
  all_scraped_data_consolidated :: "(string \<times> string) list"
  rwld :: world

abbreviation in_rworld :: "('a, world) prog \<Rightarrow> ('a, runner_state) prog" where
  "in_rworld \<equiv> zoom rwld (\<lambda>w st. st\<lparr>rwld := w\<rparr>)"

text \<open>The body of the loop over the sites.\<close>

definition site_step ::
  "env \<Rightarrow> string \<Rightarrow> nat \<Rightarrow> nat \<times> string \<Rightarrow> (unit, runner_state) prog" where
  "site_step env task_id total_websites = (\<lambda>(i, website_url).
     bnd (in_rworld (log_progress task_id
            (''--- Processing website '' @ str_nat (i + 1) @ ''/'' @ str_nat total_websites
             @ '': '' @ website_url @ '' ---''))) (\<lambda>_.
     bnd (in_rworld (scrape_website_emails_for_task env website_url task_id MAX_DEPTH))
       (\<lambda>emails_found_for_site.
     if emails_found_for_site \<noteq> {} then
       let emails_string = join '', '' (sorted_list_of_set emails_found_for_site) in
       bnd (modify (\<lambda>st. st\<lparr>all_scraped_data_consolidated :=
              all_scraped_data_consolidated st @ [(website_url, emails_string)]\<rparr>)) (\<lambda>_.
       in_rworld (log_progress task_id
         (''  Successfully scraped '' @ str_nat (card emails_found_for_site)
          @ '' email(s) from '' @ website_url @ '': '' @ emails_string)))
     else
       bnd (modify (\<lambda>st. st\<lparr>all_scraped_data_consolidated :=
              all_scraped_data_consolidated st
              @ [(website_url, ''NO_EMAILS_FOUND_OR_ERROR'')]\<rparr>)) (\<lambda>_.
       in_rworld (log_progress task_id
         (''  No emails found for '' @ website_url @ '' (or an error occurred).''))))))"

text \<open>
  Writing the artifact: the file is opened (which may raise), then the header row and the
  data rows are written. The writer's encoding of a row is not modelled; a file is its rows.
\<close>

definition write_csv :: "env \<Rightarrow> string \<Rightarrow> (string \<times> string) list \<Rightarrow> (unit, world) prog" where
  "write_csv env csv_filepath data_rows =
     bnd (call (open_write env csv_filepath)) (\<lambda>_.
     modify (\<lambda>w. w\<lparr>files := (files w)(csv_filepath \<mapsto>
       [''Website'', ''Emails Found''] # map (\<lambda>(website, emails). [website, emails]) data_rows)\<rparr>))"

text \<open>\<open>tasks[task_id][...] = ...\<close> raises KeyError when the task is not in the store.\<close>

definition update_task :: "string \<Rightarrow> (task \<Rightarrow> task) \<Rightarrow> (unit, world) prog" where
  "update_task task_id f w =
     (case tasks w task_id of
        None \<Rightarrow> Raised (key_error task_id) w
      | Some t \<Rightarrow> Return () (w\<lparr>tasks := (tasks w)(task_id \<mapsto> f t)\<rparr>))"

text \<open>
  The \<open>except\<close> block of the runner: inside \<open>with tasks_lock\<close> it sets the status and the
  error message and then calls \<open>log_progress\<close>, which takes \<open>tasks_lock\<close> again.
\<close>

definition report_error :: "string \<Rightarrow> exn \<Rightarrow> (unit, world) prog" where
  "report_error task_id e =
     with_tasks_lock
       (bnd (gets (\<lambda>w. task_id \<in> dom (tasks w))) (\<lambda>known.
        if known then
          bnd (update_task task_id (\<lambda>t. t\<lparr>status := Error\<rparr>)) (\<lambda>_.
          bnd (update_task task_id (\<lambda>t. t\<lparr>error_message := Some e\<rparr>)) (\<lambda>_.
          log_progress task_id (''A critical error occurred: '' @ e)))
        else ret ()))"

text \<open>The \<open>try\<close> block of the runner.\<close>

definition scraping_task_body :: "env \<Rightarrow> string \<Rightarrow> string list \<Rightarrow> (unit, world) prog" where
  "scraping_task_body env task_id websites_to_process =
     bnd (with_tasks_lock (update_task task_id (\<lambda>t. t\<lparr>status := Processing\<rparr>))) (\<lambda>_.
     frame (\<lambda>w. \<lparr>all_scraped_data_consolidated = [], rwld = w\<rparr>) rwld
       (let total_websites = length websites_to_process in
        bnd (for_each (enumerate 0 websites_to_process)
               (site_step env task_id total_websites)) (\<lambda>_.
        let csv_filename = ''scraped_emails_'' @ task_id @ ''.csv'';
            csv_filepath = path_join TEMP_DIR csv_filename in
        bnd (gets all_scraped_data_consolidated) (\<lambda>data_rows.
        bnd (in_rworld (write_csv env csv_filepath data_rows)) (\<lambda>_.
        bnd (in_rworld (log_progress task_id
               (''Scraping complete. Results saved to server: '' @ csv_filename))) (\<lambda>_.
        in_rworld (with_tasks_lock
          (bnd (update_task task_id (\<lambda>t. t\<lparr>status := Complete\<rparr>)) (\<lambda>_.
           bnd (update_task task_id (\<lambda>t. t\<lparr>filename := Some csv_filename\<rparr>)) (\<lambda>_.
           update_task task_id (\<lambda>t. t\<lparr>results_summary :=
             Some (str_nat (length data_rows) @ '' websites processed.'')\<rparr>)))))))))))"

definition run_scraping_task_thread :: "env \<Rightarrow> string \<Rightarrow> string list \<Rightarrow> (unit, world) prog" where
  "run_scraping_task_thread env task_id websites_to_process =
     try_except (scraping_task_body env task_id websites_to_process) (report_error task_id)"

section \<open>Progress Stream Publisher\<close>

text \<open>\<open>xs[k:]\<close> and \<open>str(v)\<close> for a value that is a string or \<open>None\<close>.\<close>

definition py_slice_from :: "'a list \<Rightarrow> int \<Rightarrow> 'a list" where
  "py_slice_from xs k = (if k < 0 then drop (length xs - nat (- k)) xs else drop (nat k) xs)"

definition str_opt :: "string option \<Rightarrow> string" where
  "str_opt v = (case v of None \<Rightarrow> ''None'' | Some s \<Rightarrow> s)"

definition sse :: "string \<Rightarrow> string" where
  "sse payload = ''data: '' @ payload @ [CHR 0x0A, CHR 0x0A]"

text \<open>
  How the stream of one observer ends over the polls given: closed after a terminal event,
  still waiting for the next poll (with its cursor), or stuck on \<open>tasks_lock\<close>.
\<close>

datatype stream_end = Closed | Waiting int | Stuck

text \<open>
  The generator of \<open>progress_stream\<close>. The list holds the world at each moment the
  observer reaches \<open>with tasks_lock\<close>; the result is the events yielded, in order. With
  the lock held for good the observer never enters its critical section.
\<close>

fun generate :: "string \<Rightarrow> int \<Rightarrow> world list \<Rightarrow> string list \<times> stream_end" where
  "generate task_id last_sent_idx [] = ([], Waiting last_sent_idx)"
| "generate task_id last_sent_idx (w # ws) =
     (if lock_held w then ([], Stuck)
      else case tasks w task_id of
        None \<Rightarrow> ([sse (''Error: Task ID '' @ task_id @ '' not found.'')], Closed)
      | Some current_task \<Rightarrow>
          let new_messages = py_slice_from (progress_messages current_task) (last_sent_idx + 1);
              events = map sse new_messages;
              last_sent_idx' = last_sent_idx + int (length new_messages)
          in if status current_task = Complete then
               (events @ [sse (''COMPLETE:'' @ str_opt (filename current_task))], Closed)
             else if status current_task = Error then
               (events @ [sse (''ERROR:'' @ str_opt (error_message current_task))], Closed)
             else (case generate task_id last_sent_idx' ws of
                     (later, e) \<Rightarrow> (events @ later, e)))"

definition progress_stream :: "string \<Rightarrow> world list \<Rightarrow> string list \<times> stream_end" where
  "progress_stream task_id polls = generate task_id (- 1) polls"

section \<open>Download\<close>

text \<open>
  The answer of \<open>download_file\<close>, and with it the paths it asked the filesystem about.
  \<open>isfile\<close> is \<open>os.path.isfile\<close>.
\<close>

datatype response = Status string nat | SendFile string string

definition download_file :: "(string \<Rightarrow> bool) \<Rightarrow> string \<Rightarrow> response \<times> string list" where
  "download_file isfile file_name =
     (if str_in ''..'' file_name \<or> startswith file_name ''/'' then
        (Status ''Invalid filename'' 400, [])
      else
        let file_path = path_join TEMP_DIR file_name in
        if \<not> isfile file_path then (Status ''File not found or access denied.'' 404, [file_path])
        else (SendFile file_path file_name, [file_path, file_path]))"

section \<open>Claims about the download operation\<close>

lemma split_from_char_step:
  "split_from [c] cur (x # xs) =
     (if x = c then cur # split_from [c] [] xs else split_from [c] (cur @ [x]) xs)"
  by (simp add: split_from.simps)

lemma startswith_append: "startswith (p @ t) p"
  by (induction p) auto

lemma str_in_prefix: "str_in (c # p) ((c # p) @ t)"
  using startswith_append [of "c # p" t] by simp

lemma str_in_append_left: "str_in sub t \<Longrightarrow> str_in sub (pre @ t)"
  by (induction pre) auto

lemma parent_segment_contains:
  "''..'' \<in> set (split_from ''/'' cur s) \<Longrightarrow> str_in ''..'' (cur @ s)"
proof (induction s arbitrary: cur)
  case Nil
  then have "cur = ''..''" by (auto simp: split_from.simps)
  then show ?case by simp
next
  case (Cons x xs)
  show ?case
  proof (cases "x = CHR ''/''")
    case True
    with Cons.prems have "cur = ''..'' \<or> ''..'' \<in> set (split_from ''/'' [] xs)"
      by (auto simp: split_from_char_step)
    then show ?thesis
    proof
      assume "cur = ''..''"
      then show ?thesis using str_in_prefix [of "CHR ''.''" "''.''" "x # xs"] by simp
    next
      assume "''..'' \<in> set (split_from ''/'' [] xs)"
      then have "str_in ''..'' xs" using Cons.IH [of "[]"] by simp
      then have "str_in ''..'' (x # xs)" by simp
      then show ?thesis by (rule str_in_append_left)
    qed
  next
    case False
    with Cons.prems have "''..'' \<in> set (split_from ''/'' (cur @ [x]) xs)"
      by (simp add: split_from_char_step)
    then show ?thesis using Cons.IH [of "cur @ [x]"] by simp
  qed
qed

text \<open>
  Claim C8: a file name that has a parent-directory segment (or any \<open>..\<close>) or starts
  with a slash is answered with status 400 and no path is handed to the filesystem, in
  particular \<open>../../etc/passwd\<close> and \<open>/etc/passwd\<close>; any other name whose file does not
  exist under the artifact directory is answered with 404.
\<close>

theorem C8_download_rejects:
  "(''..'' \<in> set (py_split ''/'' file_name) \<or> str_in ''..'' file_name
      \<or> startswith file_name ''/''
     \<longrightarrow> download_file isfile file_name = (Status ''Invalid filename'' 400, []))
   \<and> download_file isfile ''../../etc/passwd'' = (Status ''Invalid filename'' 400, [])
   \<and> download_file isfile ''/etc/passwd'' = (Status ''Invalid filename'' 400, [])
   \<and> (\<not> str_in ''..'' file_name \<and> \<not> startswith file_name ''/''
        \<and> \<not> isfile (path_join TEMP_DIR file_name)
     \<longrightarrow> download_file isfile file_name
          = (Status ''File not found or access denied.'' 404, [path_join TEMP_DIR file_name]))"
proof -
  have seg: "str_in ''..'' file_name" if "''..'' \<in> set (py_split ''/'' file_name)"
    using parent_segment_contains [of "[]" file_name] that by (simp add: py_split_def)
  have 1: "download_file isfile ''../../etc/passwd'' = (Status ''Invalid filename'' 400, [])"
    by (simp add: download_file_def)
  have 2: "download_file isfile ''/etc/passwd'' = (Status ''Invalid filename'' 400, [])"
    by (simp add: download_file_def)
  show ?thesis using seg 1 2 by (auto simp: download_file_def Let_def)
qed

theorem C8_download_rejects_witness:
  "''..'' \<in> set (py_split ''/'' ''reports/../../secret.csv'')
   \<and> download_file (\<lambda>_. True) ''reports/../../secret.csv'' = (Status ''Invalid filename'' 400, [])
   \<and> \<not> str_in ''..'' ''scraped_emails_42.csv'' \<and> \<not> startswith ''scraped_emails_42.csv'' ''/''
   \<and> download_file (\<lambda>_. False) ''scraped_emails_42.csv''
       = (Status ''File not found or access denied.'' 404, [''temp_files/scraped_emails_42.csv''])"
proof -
  have a: "''..'' \<in> set (py_split ''/'' ''reports/../../secret.csv'')" by code_simp
  have b: "\<not> str_in ''..'' ''scraped_emails_42.csv''" "\<not> startswith ''scraped_emails_42.csv'' ''/''"
    by simp_all
  have c: "path_join TEMP_DIR ''scraped_emails_42.csv'' = ''temp_files/scraped_emails_42.csv''"
    by code_simp
  from C8_download_rejects [of "''reports/../../secret.csv''" "\<lambda>_. True"]
    C8_download_rejects [of "''scraped_emails_42.csv''" "\<lambda>_. False"] a b c
  show ?thesis by simp
qed

section \<open>Claims about mailto anchors\<close>

lemma split_from_length2:
  assumes "sep \<noteq> []" "startswith s sep"
  shows "\<exists>x xs. split_from sep [] s = [] # x # xs"
proof (cases s)
  case Nil
  with assms show ?thesis by (cases sep) auto
next
  case (Cons c cs)
  obtain y ys where "split_from sep [] (drop (length sep) (c # cs)) = y # ys"
    using split_from_nonempty [of sep "[]" "drop (length sep) (c # cs)"]
    by (cases "split_from sep [] (drop (length sep) (c # cs))") auto
  with assms Cons show ?thesis by (simp add: split_from.simps)
qed

lemma mailto_step_never_warns:
  assumes "startswith (href a_tag) ''mailto:''"
  shows "\<exists>tok. mailto_step task_id current_url a_tag st
           = Return () (st\<lparr>page_text := page_text st @ '' '' @ tok\<rparr>)"
proof -
  from split_from_length2 [OF _ assms] obtain x xs where
    1: "py_split ''mailto:'' (href a_tag) = [] # x # xs" by (auto simp: py_split_def)
  obtain y ys where 2: "py_split ''?'' x = y # ys"
    using split_from_nonempty [of "''?''" "[]" x] by (cases "py_split ''?'' x") (auto simp: py_split_def)
  show ?thesis
    using assms by (intro exI [of _ y]) (simp add: mailto_step_def 1 2 py_index_def modify_def)
qed

text \<open>
  Claim C7 at the href \<open>mailto:\<close>, which has no address segment: the step returns
  normally, appends a space and an empty token to the page text and writes no warning
  (the log is unchanged). By \<open>mailto_step_never_warns\<close> the warning is out of reach for
  every \<open>mailto:\<close> href.
\<close>

theorem C7_malformed_mailto:
  "mailto_step task_id current_url \<lparr>href = ''mailto:'', link_text = txt\<rparr> st
     = Return () (st\<lparr>page_text := page_text st @ '' ''\<rparr>)"
proof -
  have 1: "py_split ''mailto:'' ''mailto:'' = [[], []]" by code_simp
  have 2: "py_split ''?'' [] = [[]]" by code_simp
  show ?thesis by (simp add: mailto_step_def 1 2 py_index_def modify_def)
qed

section \<open>The progress stream over a sequence of polls\<close>

text \<open>
  The words of the claim about the stream: the log of the task in a world; a world the
  observer can poll (the lock is free and the task exists); a task that has not reached a
  terminal status; a world whose log extends the log of an earlier one (the log is
  append-only); and what the stream does after the log lines of its last poll.
\<close>

definition log_of :: "string \<Rightarrow> world \<Rightarrow> string list" where
  "log_of task_id w = (case tasks w task_id of None \<Rightarrow> [] | Some t \<Rightarrow> progress_messages t)"

definition terminal_events :: "string \<Rightarrow> world \<Rightarrow> string list \<times> stream_end" where
  "terminal_events task_id w =
     (case tasks w task_id of
        None \<Rightarrow> ([], Closed)
      | Some t \<Rightarrow>
          if status t = Complete then ([sse (''COMPLETE:'' @ str_opt (filename t))], Closed)
          else if status t = Error then ([sse (''ERROR:'' @ str_opt (error_message t))], Closed)
          else ([], Waiting (int (length (progress_messages t)) - 1)))"

definition observable :: "string \<Rightarrow> world \<Rightarrow> bool" where
  "observable task_id w = (\<not> lock_held w \<and> tasks w task_id \<noteq> None)"

definition running :: "string \<Rightarrow> world \<Rightarrow> bool" where
  "running task_id w =
     (case tasks w task_id of None \<Rightarrow> False
      | Some t \<Rightarrow> status t \<noteq> Complete \<and> status t \<noteq> Error)"

definition extends :: "string \<Rightarrow> world \<Rightarrow> world \<Rightarrow> bool" where
  "extends task_id w w' = (\<exists>more. log_of task_id w' = log_of task_id w @ more)"

lemma extends_trans: "extends tid a b \<Longrightarrow> extends tid b c \<Longrightarrow> extends tid a c"
  by (auto simp: extends_def)

lemma successively_extends_last:
  "successively (extends tid) (w # ws @ [fin]) \<Longrightarrow> extends tid w fin"
proof (induction ws arbitrary: w)
  case Nil then show ?case by simp
next
  case (Cons v ws)
  then have "extends tid w v" "extends tid v fin" by auto
  then show ?case by (rule extends_trans)
qed

lemma generate_tail:
  assumes "list_all (observable tid) (pre @ [fin])" "list_all (running tid) pre"
    "successively (extends tid) (pre @ [fin])"
    "k \<le> length (log_of tid (hd (pre @ [fin])))"
  shows "generate tid (int k - 1) (pre @ [fin])
       = (map sse (drop k (log_of tid fin)) @ fst (terminal_events tid fin),
          snd (terminal_events tid fin))"
  using assms
proof (induction pre arbitrary: k)
  case Nil
  then obtain t where t: "tasks fin tid = Some t" "\<not> lock_held fin"
    by (auto simp: observable_def)
  have k: "k \<le> length (progress_messages t)" using Nil t by (simp add: log_of_def)
  have "int k + int (length (progress_messages t) - k) = int (length (progress_messages t))"
    using k by simp
  then show ?case using t
    by (simp add: log_of_def terminal_events_def py_slice_from_def Let_def)
next
  case (Cons w pre)
  then obtain t where t: "tasks w tid = Some t" "\<not> lock_held w"
    "status t \<noteq> Complete" "status t \<noteq> Error"
    by (auto simp: observable_def running_def split: option.splits)
  have k: "k \<le> length (progress_messages t)" using Cons.prems(4) t by (simp add: log_of_def)
  have ext: "extends tid w fin" using successively_extends_last [of tid w pre fin] Cons.prems(3) by simp
  then obtain more where more: "log_of tid fin = progress_messages t @ more"
    using t by (auto simp: extends_def log_of_def)
  have nxt: "extends tid w (hd (pre @ [fin]))"
    using Cons.prems(3) by (cases pre) auto
  then have len: "length (progress_messages t) \<le> length (log_of tid (hd (pre @ [fin])))"
    using t by (auto simp: extends_def log_of_def)
  have IH: "generate tid (int (length (progress_messages t)) - 1) (pre @ [fin])
       = (map sse (drop (length (progress_messages t)) (log_of tid fin)) @ fst (terminal_events tid fin),
          snd (terminal_events tid fin))"
    using Cons.prems Cons.IH [OF _ _ _ len] by (cases pre) auto
  have idx: "int k - 1 + int (length (progress_messages t) - k) = int (length (progress_messages t)) - 1"
    using k by simp
  have d1: "drop k (progress_messages t @ more) = drop k (progress_messages t) @ more"
    using k by simp
  have d2: "drop (length (progress_messages t)) (progress_messages t @ more) = more"
    by simp
  show ?case using t
    by (simp add: py_slice_from_def Let_def idx IH more d1 d2 del: drop_append)
qed

text \<open>
  A task record, and a world that holds it under the id \<open>t1\<close>.
\<close>

definition demo_task :: "status \<Rightarrow> string list \<Rightarrow> string option \<Rightarrow> task" where
  "demo_task st msgs file =
     \<lparr>status = st, urls = [''http://a.com''], progress_messages = msgs, filename = file,
      error_message = None, last_message_index_sent = - 1, results_summary = None\<rparr>"

definition demo_world :: "task \<Rightarrow> world" where
  "demo_world t =
     \<lparr>tasks = [''t1'' \<mapsto> t], lock_held = False, http_log = [], files = Map.empty\<rparr>"

section \<open>Claims about the visits of the Crawl Engine\<close>

declare crawl_loop.simps [simp del]

text \<open>
  The invariant of the loop, over the requests \<open>new\<close> made since the crawl started with
  request history \<open>h0\<close>: no address is requested twice, every requested address is marked
  visited, and every requested address has the authority of the seed.
\<close>

definition crawl_inv :: "string list \<Rightarrow> env \<Rightarrow> string \<Rightarrow> crawl_state \<Rightarrow> bool" where
  "crawl_inv h0 env base_domain st =
     (\<exists>new. http_log (wld st) = h0 @ new \<and> distinct new \<and> set new \<subseteq> visited_urls st
        \<and> (\<forall>x \<in> set new. netloc_of env x = Inr base_domain))"

lemma crawl_inv_scan:
  "crawl_inv h0 env bd st0 \<Longrightarrow> scan_rel env bd md d st0 st \<Longrightarrow> crawl_inv h0 env bd st"
  by (auto simp: crawl_inv_def scan_rel_def)

lemma crawl_inv_marked: "crawl_inv h0 env bd st \<Longrightarrow> crawl_inv h0 env bd (marked u st)"
  by (auto simp: crawl_inv_def)

lemma crawl_inv_requested:
  assumes "crawl_inv h0 env bd st" "u \<notin> visited_urls st" "netloc_of env u = Inr bd"
  shows "crawl_inv h0 env bd (requested u st)"
proof -
  from assms(1) obtain new where new: "http_log (wld st) = h0 @ new" "distinct new"
    "set new \<subseteq> visited_urls st" "\<forall>x \<in> set new. netloc_of env x = Inr bd"
    by (auto simp: crawl_inv_def)
  have "http_log (wld (requested u st)) = h0 @ (new @ [u])" by (simp add: new(1))
  moreover have "distinct (new @ [u])" using new(2,3) assms(2) by auto
  moreover have "set (new @ [u]) \<subseteq> visited_urls (requested u st)" using new(3) by auto
  moreover have "\<forall>x \<in> set (new @ [u]). netloc_of env x = Inr bd" using new(4) assms(3) by auto
  ultimately show ?thesis unfolding crawl_inv_def by blast
qed

lemma loop_body_inv:
  assumes "crawl_inv h0 env bd st"
  shows "crawl_inv h0 env bd (final (loop_body env tid md bd u d st))"
proof -
  have "wp (loop_body env tid md bd u d) (\<lambda>_. crawl_inv h0 env bd) (\<lambda>_. crawl_inv h0 env bd)
      (crawl_inv h0 env bd) st"
    by (rule wp_mono [OF loop_body_effect [of env tid md bd u d st]])
      (use assms in \<open>auto intro: crawl_inv_scan crawl_inv_marked crawl_inv_requested\<close>)
  then show ?thesis by (simp add: wp_final)
qed

lemma crawl_loop_inv:
  "crawl_inv h0 env bd st \<Longrightarrow> crawl_inv h0 env bd (final (crawl_loop env tid md bd st))"
proof (induction env tid md bd st rule: crawl_loop.induct)
  case (1 env tid md bd st)
  show ?case
  proof (cases "urls_to_visit st")
    case Nil
    then show ?thesis using "1.prems" by (simp add: crawl_loop.simps)
  next
    case (Cons a rest)
    obtain u d where a: "a = (u, d)" by (cases a)
    let ?st1 = "st\<lparr>urls_to_visit := rest\<rparr>"
    have "crawl_inv h0 env bd ?st1" using "1.prems" by (simp add: crawl_inv_def)
    then have body: "crawl_inv h0 env bd (final (loop_body env tid md bd u d ?st1))"
      by (rule loop_body_inv)
    show ?thesis
    proof (cases "loop_body env tid md bd u d ?st1")
      case (Return x st')
      have "crawl_inv h0 env bd (final (crawl_loop env tid md bd st'))"
        using "1.IH" [OF Cons a [symmetric] Return] body Return by simp
      then show ?thesis using Cons a Return by (simp add: crawl_loop.simps [of _ _ _ _ st])
    next
      case (Raised e st')
      then show ?thesis using Cons a body by (simp add: crawl_loop.simps [of _ _ _ _ st])
    next
      case (Blocked st')
      then show ?thesis using Cons a body by (simp add: crawl_loop.simps [of _ _ _ _ st])
    qed
  qed
qed

lemma final_bnd_Return: "m s = Return x s' \<Longrightarrow> final (bnd m f s) = final (f x s')"
  by (simp add: bnd_def)

lemma crawl_loop_requests:
  assumes "crawl_inv h0 env bd st"
  shows "wp (crawl_loop env tid md bd)
      (\<lambda>_ s. \<exists>new. http_log (wld s) = h0 @ new \<and> distinct new
          \<and> (\<forall>u \<in> set new. netloc_of env u = Inr bd))
      (\<lambda>_ s. \<exists>new. http_log (wld s) = h0 @ new \<and> distinct new
          \<and> (\<forall>u \<in> set new. netloc_of env u = Inr bd))
      (\<lambda>s. \<exists>new. http_log (wld s) = h0 @ new \<and> distinct new
          \<and> (\<forall>u \<in> set new. netloc_of env u = Inr bd))
      st"
  using crawl_loop_inv [OF assms, of tid md]
  by (simp add: wp_final) (auto simp: crawl_inv_def)

lemma scrape_requests:
  "\<exists>new. http_log (final (scrape_website_emails_for_task env base_url tid md w)) = http_log w @ new
      \<and> distinct new \<and> (\<forall>u \<in> set new. netloc_of env u = netloc_of env base_url)"
proof -
  let ?Q = "\<lambda>w'. \<exists>new. http_log w' = http_log w @ new
      \<and> distinct new \<and> (\<forall>u \<in> set new. netloc_of env u = netloc_of env base_url)"
  have "wp (scrape_website_emails_for_task env base_url tid md) (\<lambda>_. ?Q) (\<lambda>_. ?Q) ?Q w"
  proof (cases "is_valid_url env base_url")
    case (Inl e)
    then show ?thesis by (simp add: scrape_website_emails_for_task_def)
  next
    case (Inr valid)
    then obtain bd where bd: "netloc_of env base_url = Inr bd"
      using valid_netloc by blast
    show ?thesis
    proof (cases valid)
      case False
      with Inr show ?thesis by (simp add: scrape_website_emails_for_task_def)
    next
      case True
      have "crawl_inv (http_log w) env bd (st\<lparr>wld := append_message tid msg w\<rparr>)"
        if "wld st = w" for st msg
        using that by (simp add: crawl_inv_def)
      then show ?thesis
        using Inr True
        by (auto simp: scrape_website_emails_for_task_def bd initial_crawl_state_def
            intro!: crawl_loop_requests simp: crawl_inv_def)
    qed
  qed
  then show ?thesis by (simp add: wp_final)
qed

lemma loop_body_skip:
  assumes "u \<in> visited_urls st \<or> is_valid_url env u = Inr False
      \<or> (\<exists>n. netloc_of env u = Inr n \<and> n \<noteq> bd)"
  shows "loop_body env tid md bd u d st = Return () st"
proof -
  have "\<exists>b. is_valid_url env u = Inr b" if "netloc_of env u = Inr n" for n
    using that by (auto simp: is_valid_url_def netloc_of_def split: sum.splits)
  then show ?thesis
    using assms by (auto simp: loop_body_def bnd_def gets_def call_def ret_def)
qed

text \<open>
  Claim C1: whatever the seed and whatever the pages that come back, the addresses one
  invocation of the Crawl Engine requests (each right after it is marked visited) are
  pairwise different and all have the authority of the seed; and a frontier element that
  is already visited, fails the Validator or has another authority is dropped, the loop
  going on with the rest of the frontier.
\<close>

theorem C1_crawl_visits:
  "(\<exists>new. http_log (final (scrape_website_emails_for_task env base_url task_id md w))
            = http_log w @ new
      \<and> distinct new \<and> (\<forall>x \<in> set new. netloc_of env x = netloc_of env base_url))
   \<and> (u \<in> visited_urls st \<or> is_valid_url env u = Inr False
        \<or> (\<exists>n. netloc_of env u = Inr n \<and> n \<noteq> base_domain)
      \<longrightarrow> crawl_loop env task_id md base_domain (st\<lparr>urls_to_visit := (u, d) # rest\<rparr>)
          = crawl_loop env task_id md base_domain (st\<lparr>urls_to_visit := rest\<rparr>))"
proof -
  have "crawl_loop env task_id md base_domain (st\<lparr>urls_to_visit := (u, d) # rest\<rparr>)
          = crawl_loop env task_id md base_domain (st\<lparr>urls_to_visit := rest\<rparr>)"
    if "u \<in> visited_urls st \<or> is_valid_url env u = Inr False
        \<or> (\<exists>n. netloc_of env u = Inr n \<and> n \<noteq> base_domain)"
    using loop_body_skip [of u "st\<lparr>urls_to_visit := rest\<rparr>" env base_domain task_id md d] that
    by (simp add: crawl_loop.simps [of _ _ _ _ "st\<lparr>urls_to_visit := (u, d) # rest\<rparr>"])
  with scrape_requests show ?thesis by blast
qed

text \<open>
  A small site for the examples: the home page links to a contact page (twice), to another
  site and to a \<open>mailto:\<close> address; \<open>urlparse\<close> and \<open>urljoin\<close> are given at the addresses
  that occur.
\<close>

definition demo_urlparse :: "string \<Rightarrow> exn + (string \<times> string)" where
  "demo_urlparse url =
     (if url = ''http://a.com'' \<or> url = ''http://a.com/contact'' then Inr (''http'', ''a.com'')
      else if url = ''http://b.com/about'' then Inr (''http'', ''b.com'')
      else if url = ''mailto://a.com/about'' then Inr (''mailto'', ''a.com'')
      else if url = ''http://['' then Inl ''Invalid IPv6 URL''
      else Inr ([], []))"

definition demo_urljoin :: "string \<Rightarrow> string \<Rightarrow> exn + string" where
  "demo_urljoin base url =
     (if url = ''/contact'' then Inr ''http://a.com/contact''
      else if url = ''http://['' then Inl ''Invalid IPv6 URL''
      else Inr url)"

definition demo_home :: page where
  "demo_home =
     \<lparr>visible_text = ''Mail us: info@a.com'',
      anchors = [\<lparr>href = ''/contact'', link_text = ''Contact''\<rparr>,
                 \<lparr>href = ''http://b.com/about'', link_text = ''About''\<rparr>,
                 \<lparr>href = ''mailto:sales@a.com?subject=hi'', link_text = ''Write''\<rparr>,
                 \<lparr>href = ''/contact'', link_text = ''Contact us''\<rparr>]\<rparr>"

definition demo_contact :: page where
  "demo_contact =
     \<lparr>visible_text = ''support@a.com'',
      anchors = [\<lparr>href = ''http://a.com'', link_text = ''About us''\<rparr>]\<rparr>"

definition demo_fetch :: "nat \<Rightarrow> string \<Rightarrow> exn + page" where
  "demo_fetch n url =
     (if url = ''http://a.com'' then Inr demo_home
      else if url = ''http://a.com/contact'' then Inr demo_contact
      else Inl ''404 Client Error'')"

definition demo_env :: env where
  "demo_env =
     \<lparr>urlparse = demo_urlparse, urljoin = demo_urljoin, fetch = demo_fetch,
      set_order = sorted_list_of_set, open_write = (\<lambda>_. Inr ())\<rparr>"

definition demo_start :: world where
  "demo_start = demo_world (demo_task Pending [''Task initiated.''] None)"

lemma demo_requests:
  "http_log (final (scrape_website_emails_for_task demo_env ''http://a.com'' ''t1'' 1 demo_start))
     = [''http://a.com'', ''http://a.com/contact'']"
  by code_simp

theorem C1_crawl_visits_witness:
  "http_log (final (scrape_website_emails_for_task demo_env ''http://a.com'' ''t1'' 1 demo_start))
     = [''http://a.com'', ''http://a.com/contact'']
   \<and> distinct [''http://a.com'', ''http://a.com/contact'']
   \<and> netloc_of demo_env ''http://a.com/contact'' = netloc_of demo_env ''http://a.com''
   \<and> netloc_of demo_env ''http://b.com/about'' = Inr ''b.com''
   \<and> crawl_loop demo_env ''t1'' 1 ''a.com''
        ((initial_crawl_state ''http://a.com'' demo_start)
           \<lparr>urls_to_visit := (''http://b.com/about'', 1) # []\<rparr>)
     = crawl_loop demo_env ''t1'' 1 ''a.com''
        ((initial_crawl_state ''http://a.com'' demo_start)\<lparr>urls_to_visit := []\<rparr>)"
proof -
  have nl: "netloc_of demo_env ''http://b.com/about'' = Inr ''b.com''"
    "netloc_of demo_env ''http://a.com/contact'' = netloc_of demo_env ''http://a.com''"
    by (simp_all add: netloc_of_def demo_env_def demo_urlparse_def)
  have h0: "http_log demo_start = []"
    by (simp add: demo_start_def demo_world_def)
  from C1_crawl_visits [of demo_env "''http://a.com''" "''t1''" 1 demo_start
      "''http://b.com/about''" "initial_crawl_state ''http://a.com'' demo_start" "''a.com''" 1 "[]"]
    nl demo_requests h0
  show ?thesis by simp
qed

section \<open>Progress of the crawl while the lock is free\<close>



definition queued_or_visited :: "crawl_state \<Rightarrow> string \<Rightarrow> bool" where
  "queued_or_visited st n = (n \<in> visited_urls st \<or> n \<in> fst ` set (urls_to_visit st))"








lemma queued_or_visited_simps [simp]:
  "queued_or_visited (st\<lparr>wld := w\<rparr>) n = queued_or_visited st n"
  "queued_or_visited (st\<lparr>page_text := t\<rparr>) n = queued_or_visited st n"
  "queued_or_visited (st\<lparr>found_target_page_on_current := b\<rparr>) n = queued_or_visited st n"
  "queued_or_visited (st\<lparr>emails_collected := E\<rparr>) n = queued_or_visited st n"
  by (simp_all add: queued_or_visited_def)
















section \<open>Claims about depth and link discovery\<close>





















section \<open>Claims about a failing batch\<close>

lemma report_error_blocks:
  assumes "tasks w task_id = Some t" "\<not> lock_held w"
  shows "report_error task_id e w
       = Blocked (w\<lparr>tasks := (tasks w)(task_id \<mapsto> t\<lparr>status := Error, error_message := Some e\<rparr>),
                    lock_held := True\<rparr>)"
  using assms
  by (simp add: report_error_def with_tasks_lock_def bnd_def gets_def update_task_def
      log_progress_def dom_def)

text \<open>
  Claim C6 against the code. When an exception \<open>e\<close> escapes the \<open>try\<close> block of the runner
  (the task is in the store and the lock is free), the \<open>except\<close> block takes
  \<open>tasks_lock\<close>, sets the status to Error and the error message to \<open>e\<close>, and then calls
  \<open>log_progress\<close>, which waits for the lock its own thread holds: the runner never
  returns, the lock is never released, the line about the critical error is never
  logged, and an observer that polls afterwards waits for the lock and receives no event,
  so the terminal ERROR event is never sent.
\<close>

theorem C6_error_report_blocks:
  assumes "tasks w task_id = Some t" "\<not> lock_held w"
    and "scraping_task_body env task_id sites w0 = Raised e w"
  shows "\<exists>w'. run_scraping_task_thread env task_id sites w0 = Blocked w'
      \<and> lock_held w'
      \<and> map_option status (tasks w' task_id) = Some Error
      \<and> map_option error_message (tasks w' task_id) = Some (Some e)
      \<and> map_option filename (tasks w' task_id) = Some (filename t)
      \<and> map_option progress_messages (tasks w' task_id) = Some (progress_messages t)
      \<and> progress_stream task_id (w' # polls) = ([], Stuck)"
  using assms
  by (simp add: run_scraping_task_thread_def try_except_def report_error_blocks
      progress_stream_def)

text \<open>
  The failing input: the one site \<open>http://[\<close> (the submission \<open>[\<close> prefixed with the
  scheme), on which \<open>urlparse\<close> raises ValueError.
\<close>

definition demo_bad_site :: "string list" where
  "demo_bad_site = [''http://['']"

lemma demo_bad_body:
  "(case scraping_task_body demo_env ''t1'' demo_bad_site demo_start of
      Raised e w \<Rightarrow> e = ''Invalid IPv6 URL'' \<and> \<not> lock_held w
          \<and> map_option status (tasks w ''t1'') = Some Processing
          \<and> map_option filename (tasks w ''t1'') = Some None
    | _ \<Rightarrow> False)"
  by code_simp

theorem C6_error_report_blocks_witness:
  "\<exists>w'. run_scraping_task_thread demo_env ''t1'' demo_bad_site demo_start = Blocked w'
      \<and> lock_held w'
      \<and> map_option status (tasks w' ''t1'') = Some Error
      \<and> map_option error_message (tasks w' ''t1'') = Some (Some ''Invalid IPv6 URL'')
      \<and> map_option filename (tasks w' ''t1'') = Some None
      \<and> progress_stream ''t1'' [w'] = ([], Stuck)"
proof -
  from demo_bad_body obtain w where
    body: "scraping_task_body demo_env ''t1'' demo_bad_site demo_start
        = Raised ''Invalid IPv6 URL'' w"
    and w: "\<not> lock_held w" "map_option status (tasks w ''t1'') = Some Processing"
      "map_option filename (tasks w ''t1'') = Some None"
    by (auto split: result.splits)
  from w(2) obtain t where t: "tasks w ''t1'' = Some t" by auto
  with w(3) have f: "filename t = None" by simp
  from C6_error_report_blocks [OF t w(1) body, of "[]"] f show ?thesis by auto
qed

section \<open>Claims about the artifact\<close>

subsection \<open>The emails a crawl returns are finitely many\<close>

lemma finite_find_emails: "finite (find_emails_on_page url content)"
  by (simp add: find_emails_on_page_def)

abbreviation (input) fin_emails :: "crawl_state \<Rightarrow> bool" where
  "fin_emails \<equiv> (\<lambda>st. finite (emails_collected st))"

lemma mailto_step_fin:
  "finite (emails_collected s) \<Longrightarrow>
   wp (mailto_step tid cur a) (\<lambda>_. fin_emails) (\<lambda>_. fin_emails) fin_emails s"
  by (simp add: mailto_step_def split: option.splits)

lemma link_step_fin:
  "finite (emails_collected s) \<Longrightarrow>
   wp (link_step env tid bd cur d a) (\<lambda>_. fin_emails) (\<lambda>_. fin_emails) fin_emails s"
  by (simp add: link_step_def split: sum.splits)

lemma mailto_loop_fin:
  assumes "finite (emails_collected s)" "\<And>s'. finite (emails_collected s') \<Longrightarrow> Qn () s'"
  shows "wp (for_each xs (mailto_step tid cur)) Qn (\<lambda>_. fin_emails) fin_emails s"
  using assms by (intro wp_for_each [where I = fin_emails]) (auto intro: mailto_step_fin)

lemma link_loop_fin:
  assumes "finite (emails_collected s)" "\<And>s'. finite (emails_collected s') \<Longrightarrow> Qn () s'"
  shows "wp (for_each xs (link_step env tid bd cur d)) Qn (\<lambda>_. fin_emails) fin_emails s"
  using assms by (intro wp_for_each [where I = fin_emails]) (auto intro: link_step_fin)

lemma discover_links_fin:
  "finite (emails_collected s) \<Longrightarrow>
   wp (discover_links env tid bd cur d pg) (\<lambda>_. fin_emails) (\<lambda>_. fin_emails) fin_emails s"
  unfolding discover_links_def by (auto intro!: link_loop_fin)

lemma scan_page_fin:
  "finite (emails_collected s) \<Longrightarrow>
   wp (scan_page env tid md bd cur d pg) (\<lambda>_. fin_emails) (\<lambda>_. fin_emails) fin_emails s"
  unfolding scan_page_def
  by (auto simp: Let_def finite_find_emails intro!: mailto_loop_fin discover_links_fin)

lemma visit_fin:
  "finite (emails_collected s) \<Longrightarrow>
   wp (visit env tid md bd u d) (\<lambda>_. fin_emails) (\<lambda>_. fin_emails) fin_emails s"
  unfolding visit_def
  by (auto simp: Let_def split: sum.splits
      intro!: wp_mono [OF scan_page_fin])

lemma loop_body_fin:
  "finite (emails_collected s) \<Longrightarrow>
   wp (loop_body env tid md bd u d) (\<lambda>_. fin_emails) (\<lambda>_. fin_emails) fin_emails s"
  unfolding loop_body_def
  by (auto split: sum.splits intro!: visit_fin)

lemma crawl_loop_fin:
  "finite (emails_collected st) \<Longrightarrow> crawl_loop env tid md bd st = Return E st' \<Longrightarrow> finite E"
proof (induction env tid md bd st rule: crawl_loop.induct)
  case (1 env tid md bd st)
  show ?case
  proof (cases "urls_to_visit st")
    case Nil
    then show ?thesis using "1.prems" by (auto simp: crawl_loop.simps)
  next
    case (Cons a rest)
    obtain u d where a: "a = (u, d)" by (cases a)
    let ?st1 = "st\<lparr>urls_to_visit := rest\<rparr>"
    have f1: "finite (emails_collected ?st1)" using "1.prems"(1) by simp
    show ?thesis
    proof (cases "loop_body env tid md bd u d ?st1")
      case (Return x s')
      have "finite (emails_collected s')"
        using wp_ReturnD [OF loop_body_fin [OF f1] Return] .
      moreover have "crawl_loop env tid md bd s' = Return E st'"
        using "1.prems"(2) Cons a Return by (simp add: crawl_loop.simps [of _ _ _ _ st])
      ultimately show ?thesis using "1.IH" [OF Cons a [symmetric] Return] by blast
    next
      case (Raised e s')
      then show ?thesis using "1.prems"(2) Cons a by (simp add: crawl_loop.simps [of _ _ _ _ st])
    next
      case (Blocked s')
      then show ?thesis using "1.prems"(2) Cons a by (simp add: crawl_loop.simps [of _ _ _ _ st])
    qed
  qed
qed

lemma scrape_finite:
  assumes "scrape_website_emails_for_task env base_url tid md w = Return E w'"
  shows "finite E"
proof -
  have loop: "wp (crawl_loop env tid md bd) (\<lambda>E _. finite E) (\<lambda>_ _. True) (\<lambda>_. True) st"
    if "finite (emails_collected st)" for bd st
    using crawl_loop_fin [OF that] by (cases "crawl_loop env tid md bd st") (auto simp: wp_def)
  have "wp (scrape_website_emails_for_task env base_url tid md) (\<lambda>E _. finite E)
      (\<lambda>_ _. True) (\<lambda>_. True) w"
    unfolding scrape_website_emails_for_task_def
    by (auto simp: initial_crawl_state_def split: sum.splits intro!: loop)
  from wp_ReturnD [OF this assms] show ?thesis .
qed

subsection \<open>The rows of the artifact\<close>

text \<open>
  \<open>emails_cell\<close> is the text of the second column the runner derives from the set a
  crawl returned.
\<close>

definition emails_cell :: "string set \<Rightarrow> string" where
  "emails_cell emails =
     (if emails \<noteq> {} then join '', '' (sorted_list_of_set emails)
      else ''NO_EMAILS_FOUND_OR_ERROR'')"

lemma wp_Return_only:
  assumes "\<And>x s'. m s = Return x s' \<Longrightarrow> Qn x s'"
  shows "wp m Qn (\<lambda>_ _. True) (\<lambda>_. True) s"
  using assms by (cases "m s") (simp_all add: wp_def)

text \<open>
  The crawls of one run, in order. For each site the runner logs the line that announces
  it and crawls the site in the world reached; \<open>crawls_of_run\<close> records the site with the
  set this crawl returns, and goes on in the world the crawl left, after the line that
  reports the result. The list ends at a crawl that does not return.
\<close>

fun crawls_of_run ::
  "env \<Rightarrow> string \<Rightarrow> nat \<Rightarrow> (nat \<times> string) list \<Rightarrow> world \<Rightarrow> (string \<times> string set) list" where
  "crawls_of_run env task_id total_websites [] w = []"
| "crawls_of_run env task_id total_websites ((i, website_url) # rest) w =
     (case scrape_website_emails_for_task env website_url task_id MAX_DEPTH
             (append_message task_id
                (''--- Processing website '' @ str_nat (i + 1) @ ''/'' @ str_nat total_websites
                 @ '': '' @ website_url @ '' ---'') w) of
        Return emails w' \<Rightarrow>
          (website_url, emails)
          # crawls_of_run env task_id total_websites rest
              (append_message task_id
                 (if emails \<noteq> {} then
                    ''  Successfully scraped '' @ str_nat (card emails) @ '' email(s) from ''
                    @ website_url @ '': '' @ join '', '' (sorted_list_of_set emails)
                  else ''  No emails found for '' @ website_url @ '' (or an error occurred).'')
                 w')
      | Raised e w' \<Rightarrow> []
      | Blocked w' \<Rightarrow> [])"

lemma site_step_crawl:
  "wp (site_step env tid tot (i, site))
     (\<lambda>_ st'. \<exists>E w2.
         scrape_website_emails_for_task env site tid MAX_DEPTH
           (append_message tid
              (''--- Processing website '' @ str_nat (i + 1) @ ''/'' @ str_nat tot
               @ '': '' @ site @ '' ---'') (rwld st)) = Return E w2
         \<and> finite E
         \<and> all_scraped_data_consolidated st'
             = all_scraped_data_consolidated st @ [(site, emails_cell E)]
         \<and> rwld st'
             = append_message tid
                 (if E \<noteq> {} then
                    ''  Successfully scraped '' @ str_nat (card E) @ '' email(s) from ''
                    @ site @ '': '' @ join '', '' (sorted_list_of_set E)
                  else ''  No emails found for '' @ site @ '' (or an error occurred).'') w2)
     (\<lambda>_ _. True) (\<lambda>_. True) st"
proof -
  have crawl: "wp (scrape_website_emails_for_task env site tid MAX_DEPTH) Qn (\<lambda>_ _. True)
      (\<lambda>_. True) w1"
    if "\<And>E w2. scrape_website_emails_for_task env site tid MAX_DEPTH w1 = Return E w2
          \<Longrightarrow> finite E \<Longrightarrow> Qn E w2" for Qn w1
  proof (rule wp_Return_only)
    fix E w2 assume r: "scrape_website_emails_for_task env site tid MAX_DEPTH w1 = Return E w2"
    show "Qn E w2" using r scrape_finite [OF r] by (rule that)
  qed
  show ?thesis
    unfolding site_step_def
    by (auto simp: Let_def emails_cell_def intro!: crawl)
qed

lemma site_loop_crawls:
  "wp (for_each (enumerate n sites) (site_step env tid tot))
     (\<lambda>_ st'. map fst (crawls_of_run env tid tot (enumerate n sites) (rwld st)) = sites
         \<and> list_all (\<lambda>(site, emails). finite emails)
              (crawls_of_run env tid tot (enumerate n sites) (rwld st))
         \<and> all_scraped_data_consolidated st'
             = all_scraped_data_consolidated st
               @ map (\<lambda>(site, emails). (site, emails_cell emails))
                   (crawls_of_run env tid tot (enumerate n sites) (rwld st)))
     (\<lambda>_ _. True) (\<lambda>_. True) st"
proof (induction sites arbitrary: n st)
  case Nil
  then show ?case by simp
next
  case (Cons site sites)
  let ?in = "append_message tid
              (''--- Processing website '' @ str_nat (n + 1) @ ''/'' @ str_nat tot
               @ '': '' @ site @ '' ---'') (rwld st)"
  show ?case
    unfolding enumerate_simps for_each.simps wp_bnd
  proof (rule wp_mono [OF site_step_crawl [of env tid tot n site st]])
    fix x :: unit and s1 :: runner_state
    assume "\<exists>E w2.
         scrape_website_emails_for_task env site tid MAX_DEPTH ?in = Return E w2
         \<and> finite E
         \<and> all_scraped_data_consolidated s1
             = all_scraped_data_consolidated st @ [(site, emails_cell E)]
         \<and> rwld s1
             = append_message tid
                 (if E \<noteq> {} then
                    ''  Successfully scraped '' @ str_nat (card E) @ '' email(s) from ''
                    @ site @ '': '' @ join '', '' (sorted_list_of_set E)
                  else ''  No emails found for '' @ site @ '' (or an error occurred).'') w2"
    then obtain E w2 where
      r: "scrape_website_emails_for_task env site tid MAX_DEPTH ?in = Return E w2"
      and fin: "finite E"
      and rows: "all_scraped_data_consolidated s1
             = all_scraped_data_consolidated st @ [(site, emails_cell E)]"
      and w: "rwld s1
             = append_message tid
                 (if E \<noteq> {} then
                    ''  Successfully scraped '' @ str_nat (card E) @ '' email(s) from ''
                    @ site @ '': '' @ join '', '' (sorted_list_of_set E)
                  else ''  No emails found for '' @ site @ '' (or an error occurred).'') w2"
      by blast
    have unfold: "crawls_of_run env tid tot ((n, site) # enumerate (Suc n) sites) (rwld st)
        = (site, E) # crawls_of_run env tid tot (enumerate (Suc n) sites) (rwld s1)"
      using r w by simp
    show "wp (for_each (enumerate (Suc n) sites) (site_step env tid tot))
     (\<lambda>_ st'. map fst (crawls_of_run env tid tot ((n, site) # enumerate (Suc n) sites) (rwld st))
              = site # sites
         \<and> list_all (\<lambda>(site, emails). finite emails)
              (crawls_of_run env tid tot ((n, site) # enumerate (Suc n) sites) (rwld st))
         \<and> all_scraped_data_consolidated st'
             = all_scraped_data_consolidated st
               @ map (\<lambda>(site, emails). (site, emails_cell emails))
                   (crawls_of_run env tid tot ((n, site) # enumerate (Suc n) sites) (rwld st)))
     (\<lambda>_ _. True) (\<lambda>_. True) s1"
      by (rule wp_mono [OF Cons.IH [of "Suc n" s1]]) (simp_all add: unfold fin rows del: crawls_of_run.simps)
  qed simp_all
qed

lemma wp_with_tasks_lock [simp]:
  "wp (with_tasks_lock body) Qn Qr Qb w =
     (if lock_held w then Qb w
      else wp body (\<lambda>x w'. Qn x (w'\<lparr>lock_held := False\<rparr>))
             (\<lambda>e w'. Qr e (w'\<lparr>lock_held := False\<rparr>)) Qb (w\<lparr>lock_held := True\<rparr>))"
  by (simp add: wp_def with_tasks_lock_def split: result.splits)

lemma wp_update_task [simp]:
  "wp (update_task tid f) Qn Qr Qb w =
     (case tasks w tid of
        None \<Rightarrow> Qr (key_error tid) w
      | Some t \<Rightarrow> Qn () (w\<lparr>tasks := (tasks w)(tid \<mapsto> f t)\<rparr>))"
  by (simp add: wp_def update_task_def split: option.splits)

lemma rows_of_cells:
  "map (\<lambda>(website, emails). [website, emails])
       (map (\<lambda>(site, emails). (site, emails_cell emails)) crawls)
     = map (\<lambda>(site, emails). [site, emails_cell emails]) crawls"
  by (induction crawls) auto

lemma processing_world:
  "\<not> lock_held w \<Longrightarrow> w\<lparr>tasks := ts, lock_held := False\<rparr> = w\<lparr>tasks := ts\<rparr>"
  by (cases w) simp

lemma body_artifact:
  assumes "scraping_task_body env tid sites w = Return x w'"
  shows "\<exists>t. tasks w tid = Some t \<and> \<not> lock_held w
      \<and> map fst (crawls_of_run env tid (length sites) (enumerate 0 sites)
                   (w\<lparr>tasks := (tasks w)(tid \<mapsto> t\<lparr>status := Processing\<rparr>)\<rparr>)) = sites
      \<and> list_all (\<lambda>(site, emails). finite emails)
           (crawls_of_run env tid (length sites) (enumerate 0 sites)
              (w\<lparr>tasks := (tasks w)(tid \<mapsto> t\<lparr>status := Processing\<rparr>)\<rparr>))
      \<and> files w' (path_join TEMP_DIR (''scraped_emails_'' @ tid @ ''.csv''))
          = Some ([''Website'', ''Emails Found'']
                  # map (\<lambda>(site, emails). [site, emails_cell emails])
                      (crawls_of_run env tid (length sites) (enumerate 0 sites)
                         (w\<lparr>tasks := (tasks w)(tid \<mapsto> t\<lparr>status := Processing\<rparr>)\<rparr>)))
      \<and> map_option status (tasks w' tid) = Some Complete
      \<and> map_option filename (tasks w' tid) = Some (Some (''scraped_emails_'' @ tid @ ''.csv''))"
proof -
  define Q where "Q = (\<lambda>w' :: world. \<exists>t. tasks w tid = Some t \<and> \<not> lock_held w
      \<and> map fst (crawls_of_run env tid (length sites) (enumerate 0 sites)
                   (w\<lparr>tasks := (tasks w)(tid \<mapsto> t\<lparr>status := Processing\<rparr>)\<rparr>)) = sites
      \<and> list_all (\<lambda>(site, emails). finite emails)
           (crawls_of_run env tid (length sites) (enumerate 0 sites)
              (w\<lparr>tasks := (tasks w)(tid \<mapsto> t\<lparr>status := Processing\<rparr>)\<rparr>))
      \<and> files w' (path_join TEMP_DIR (''scraped_emails_'' @ tid @ ''.csv''))
          = Some ([''Website'', ''Emails Found'']
                  # map (\<lambda>(site, emails). [site, emails_cell emails])
                      (crawls_of_run env tid (length sites) (enumerate 0 sites)
                         (w\<lparr>tasks := (tasks w)(tid \<mapsto> t\<lparr>status := Processing\<rparr>)\<rparr>)))
      \<and> map_option status (tasks w' tid) = Some Complete
      \<and> map_option filename (tasks w' tid) = Some (Some (''scraped_emails_'' @ tid @ ''.csv'')))"
  have loop: "wp (for_each (enumerate 0 sites) (site_step env tid tot)) Qn (\<lambda>_ _. True)
      (\<lambda>_. True) st"
    if "\<And>u st'. map fst (crawls_of_run env tid tot (enumerate 0 sites) (rwld st)) = sites
         \<Longrightarrow> list_all (\<lambda>(site, emails). finite emails)
              (crawls_of_run env tid tot (enumerate 0 sites) (rwld st))
         \<Longrightarrow> all_scraped_data_consolidated st'
             = all_scraped_data_consolidated st
               @ map (\<lambda>(site, emails). (site, emails_cell emails))
                   (crawls_of_run env tid tot (enumerate 0 sites) (rwld st)) \<Longrightarrow> Qn u st'"
    for Qn tot and st :: runner_state
    by (rule wp_mono [OF site_loop_crawls [of 0 sites env tid tot st]]) (use that in auto)
  have "wp (scraping_task_body env tid sites) (\<lambda>_. Q) (\<lambda>_ _. True) (\<lambda>_. True) w"
    unfolding scraping_task_body_def write_csv_def Q_def
    by (auto simp: Let_def rows_of_cells processing_world split: option.splits sum.splits
        intro!: loop)
  from wp_ReturnD [OF this assms] show ?thesis unfolding Q_def .
qed

text \<open>
  Claim C4: when the \<open>try\<close> block of the runner ends without an exception, the runner
  returns, the task is Complete with the artifact name, and the artifact holds the header
  row \<open>Website, Emails Found\<close> followed by one row per submitted site, in the order of
  the submission: the site, then the emails that the crawl of this site in this run
  returned (a finite set), sorted and joined with a comma and a space, or
  \<open>NO_EMAILS_FOUND_OR_ERROR\<close> when that crawl returned the empty set.
\<close>

theorem C4_artifact_rows:
  assumes "scraping_task_body env task_id sites w = Return x w'"
  shows "run_scraping_task_thread env task_id sites w = Return x w'
     \<and> (\<exists>t crawls. tasks w task_id = Some t
          \<and> crawls = crawls_of_run env task_id (length sites) (enumerate 0 sites)
                       (w\<lparr>tasks := (tasks w)(task_id \<mapsto> t\<lparr>status := Processing\<rparr>)\<rparr>)
          \<and> map fst crawls = sites
          \<and> list_all (\<lambda>(site, emails). finite emails) crawls
          \<and> files w' (path_join TEMP_DIR (''scraped_emails_'' @ task_id @ ''.csv''))
              = Some ([''Website'', ''Emails Found'']
                      # map (\<lambda>(site, emails).
                               [site, if emails \<noteq> {}
                                      then join '', '' (sorted_list_of_set emails)
                                      else ''NO_EMAILS_FOUND_OR_ERROR''])
                          crawls))
     \<and> map_option status (tasks w' task_id) = Some Complete
     \<and> map_option filename (tasks w' task_id)
         = Some (Some (''scraped_emails_'' @ task_id @ ''.csv''))"
proof -
  have run: "run_scraping_task_thread env task_id sites w = Return x w'"
    using assms by (simp add: run_scraping_task_thread_def try_except_def)
  from body_artifact [OF assms] run show ?thesis
    unfolding emails_cell_def by blast
qed

definition demo_sites :: "string list" where
  "demo_sites = [''http://a.com'', ''nowhere'']"

lemma demo_body_returns:
  "(case scraping_task_body demo_env ''t1'' demo_sites demo_start of
      Return x w' \<Rightarrow> True | _ \<Rightarrow> False)"
  by code_simp

lemma demo_crawls:
  "crawls_of_run demo_env ''t1'' 2 (enumerate 0 demo_sites)
     (demo_world (demo_task Processing [''Task initiated.''] None))
   = [(''http://a.com'', {''info@a.com'', ''sales@a.com'', ''support@a.com''}),
      (''nowhere'', {})]"
  by code_simp

lemma demo_processing:
  "demo_start\<lparr>tasks := (tasks demo_start)(''t1'' \<mapsto>
       (demo_task Pending [''Task initiated.''] None)\<lparr>status := Processing\<rparr>)\<rparr>
   = demo_world (demo_task Processing [''Task initiated.''] None)"
  by (simp add: demo_start_def demo_world_def demo_task_def)

theorem C4_artifact_rows_witness:
  "\<exists>w'. run_scraping_task_thread demo_env ''t1'' demo_sites demo_start = Return () w'
     \<and> crawls_of_run demo_env ''t1'' 2 (enumerate 0 demo_sites)
          (demo_world (demo_task Processing [''Task initiated.''] None))
         = [(''http://a.com'', {''info@a.com'', ''sales@a.com'', ''support@a.com''}),
            (''nowhere'', {})]
     \<and> files w' ''temp_files/scraped_emails_t1.csv''
         = Some [[''Website'', ''Emails Found''],
                 [''http://a.com'', ''info@a.com, sales@a.com, support@a.com''],
                 [''nowhere'', ''NO_EMAILS_FOUND_OR_ERROR'']]
     \<and> map_option status (tasks w' ''t1'') = Some Complete
     \<and> map_option filename (tasks w' ''t1'') = Some (Some ''scraped_emails_t1.csv'')"
proof -
  from demo_body_returns obtain x w' where
    body: "scraping_task_body demo_env ''t1'' demo_sites demo_start = Return x w'"
    by (auto split: result.splits)
  have t: "tasks demo_start ''t1'' = Some (demo_task Pending [''Task initiated.''] None)"
    by (simp add: demo_start_def demo_world_def)
  have cell: "join '', '' (sorted_list_of_set {''info@a.com'', ''sales@a.com'', ''support@a.com''})
      = ''info@a.com, sales@a.com, support@a.com''"
    by code_simp
  have ne: "{''info@a.com'', ''sales@a.com'', ''support@a.com''} \<noteq> ({} :: string set)" by simp
  have path: "path_join TEMP_DIR (''scraped_emails_'' @ ''t1'' @ ''.csv'')
      = ''temp_files/scraped_emails_t1.csv''"
    by code_simp
  have len: "length demo_sites = 2" by (simp add: demo_sites_def)
  from C4_artifact_rows [OF body]
  have "run_scraping_task_thread demo_env ''t1'' demo_sites demo_start = Return x w'
     \<and> files w' ''temp_files/scraped_emails_t1.csv''
         = Some [[''Website'', ''Emails Found''],
                 [''http://a.com'', ''info@a.com, sales@a.com, support@a.com''],
                 [''nowhere'', ''NO_EMAILS_FOUND_OR_ERROR'']]
     \<and> map_option status (tasks w' ''t1'') = Some Complete
     \<and> map_option filename (tasks w' ''t1'') = Some (Some ''scraped_emails_t1.csv'')"
    unfolding t len path
    by (simp add: demo_processing demo_crawls cell del: crawls_of_run.simps)
  with demo_crawls show ?thesis by auto
qed

section \<open>The progress stream after a failed batch\<close>

lemma stream_over_polls:
  assumes "list_all (observable task_id) (polls @ [w])"
    and "list_all (running task_id) polls"
    and "successively (extends task_id) (polls @ [w])"
    and "tasks w task_id = Some t"
  shows "progress_stream task_id (polls @ [w])
       = (map sse (progress_messages t)
            @ (if status t = Complete then [sse (''COMPLETE:'' @ str_opt (filename t))]
               else if status t = Error then [sse (''ERROR:'' @ str_opt (error_message t))]
               else []),
          if status t = Complete \<or> status t = Error then Closed
          else Waiting (int (length (progress_messages t)) - 1))"
proof -
  have "generate task_id (int 0 - 1) (polls @ [w])
       = (map sse (drop 0 (log_of task_id w)) @ fst (terminal_events task_id w),
          snd (terminal_events task_id w))"
    using assms(1-3) by (intro generate_tail) simp_all
  then show ?thesis
    using assms(4) by (simp add: progress_stream_def log_of_def terminal_events_def)
qed

lemma sse_text: "sse payload = ''data: '' @ payload @ [CHR 0x0A, CHR 0x0A]"
  by (simp add: sse_def)

lemma run_blocks_in_report:
  assumes "scraping_task_body env failed_id sites w0 = Raised e w1"
    and "tasks w1 failed_id = Some t1" "\<not> lock_held w1"
  shows "run_scraping_task_thread env failed_id sites w0
       = Blocked (w1\<lparr>tasks := (tasks w1)(failed_id \<mapsto>
                       t1\<lparr>status := Error, error_message := Some e\<rparr>),
                     lock_held := True\<rparr>)"
  using assms
  by (simp add: run_scraping_task_thread_def try_except_def report_error_blocks)

text \<open>
  Claim C5 against the code. While \<open>tasks_lock\<close> is free at every poll, an observer of an
  existing task whose log only grows, starting at cursor \<open>-1\<close>, has received after a poll
  exactly the log of that poll, each line once and in log order, as the event
  \<open>data: <line>\<close> followed by two newlines; the stream goes on while the task is running
  and is closed after one COMPLETE or ERROR event. But a runner whose batch fails blocks in
  its error report and keeps \<open>tasks_lock\<close> for good: in the world it leaves, an observer
  of another task that is already Complete, who would have received the backlog and the
  COMPLETE event with the artifact name just before the failure, waits for the lock and
  receives no event at all.
\<close>

theorem C5_stream_blocked_after_failure:
  "(list_all (observable task_id) (polls @ [w]) \<and> list_all (running task_id) polls
      \<and> successively (extends task_id) (polls @ [w]) \<and> tasks w task_id = Some t
    \<longrightarrow> progress_stream task_id (polls @ [w])
        = (map (\<lambda>line. ''data: '' @ line @ [CHR 0x0A, CHR 0x0A]) (progress_messages t)
             @ (if status t = Complete
                then [''data: COMPLETE:''
                      @ (case filename t of None \<Rightarrow> ''None'' | Some name \<Rightarrow> name)
                      @ [CHR 0x0A, CHR 0x0A]]
                else if status t = Error
                then [''data: ERROR:''
                      @ (case error_message t of None \<Rightarrow> ''None'' | Some name \<Rightarrow> name)
                      @ [CHR 0x0A, CHR 0x0A]]
                else []),
           if status t = Complete \<or> status t = Error then Closed
           else Waiting (int (length (progress_messages t)) - 1)))
   \<and> (tasks w1 task_id = Some finished \<and> status finished = Complete \<and> \<not> lock_held w1
        \<and> failed_id \<noteq> task_id \<and> tasks w1 failed_id = Some failed
        \<and> scraping_task_body env failed_id sites w0 = Raised e w1
      \<longrightarrow> progress_stream task_id [w1]
            = (map (\<lambda>line. ''data: '' @ line @ [CHR 0x0A, CHR 0x0A])
                 (progress_messages finished)
                 @ [''data: COMPLETE:''
                      @ (case filename finished of None \<Rightarrow> ''None'' | Some name \<Rightarrow> name)
                      @ [CHR 0x0A, CHR 0x0A]],
               Closed)
          \<and> (\<exists>w'. run_scraping_task_thread env failed_id sites w0 = Blocked w'
                \<and> tasks w' task_id = Some finished
                \<and> progress_stream task_id (w' # later) = ([], Stuck)))"
proof (intro conjI impI)
  assume a: "list_all (observable task_id) (polls @ [w]) \<and> list_all (running task_id) polls
      \<and> successively (extends task_id) (polls @ [w]) \<and> tasks w task_id = Some t"
  have "progress_stream task_id (polls @ [w])
       = (map sse (progress_messages t)
            @ (if status t = Complete then [sse (''COMPLETE:'' @ str_opt (filename t))]
               else if status t = Error then [sse (''ERROR:'' @ str_opt (error_message t))]
               else []),
          if status t = Complete \<or> status t = Error then Closed
          else Waiting (int (length (progress_messages t)) - 1))"
    using a by (intro stream_over_polls) simp_all
  then show "progress_stream task_id (polls @ [w])
        = (map (\<lambda>line. ''data: '' @ line @ [CHR 0x0A, CHR 0x0A]) (progress_messages t)
             @ (if status t = Complete
                then [''data: COMPLETE:''
                      @ (case filename t of None \<Rightarrow> ''None'' | Some name \<Rightarrow> name)
                      @ [CHR 0x0A, CHR 0x0A]]
                else if status t = Error
                then [''data: ERROR:''
                      @ (case error_message t of None \<Rightarrow> ''None'' | Some name \<Rightarrow> name)
                      @ [CHR 0x0A, CHR 0x0A]]
                else []),
           if status t = Complete \<or> status t = Error then Closed
           else Waiting (int (length (progress_messages t)) - 1))"
    by (simp add: sse_text str_opt_def)
next
  assume b: "tasks w1 task_id = Some finished \<and> status finished = Complete \<and> \<not> lock_held w1
        \<and> failed_id \<noteq> task_id \<and> tasks w1 failed_id = Some failed
        \<and> scraping_task_body env failed_id sites w0 = Raised e w1"
  then show "progress_stream task_id [w1]
            = (map (\<lambda>line. ''data: '' @ line @ [CHR 0x0A, CHR 0x0A])
                 (progress_messages finished)
                 @ [''data: COMPLETE:''
                      @ (case filename finished of None \<Rightarrow> ''None'' | Some name \<Rightarrow> name)
                      @ [CHR 0x0A, CHR 0x0A]],
               Closed)"
    by (simp add: progress_stream_def py_slice_from_def Let_def sse_text str_opt_def)
  have "run_scraping_task_thread env failed_id sites w0
       = Blocked (w1\<lparr>tasks := (tasks w1)(failed_id \<mapsto>
                       failed\<lparr>status := Error, error_message := Some e\<rparr>),
                     lock_held := True\<rparr>)"
    using b by (intro run_blocks_in_report) simp_all
  then show "\<exists>w'. run_scraping_task_thread env failed_id sites w0 = Blocked w'
                \<and> tasks w' task_id = Some finished
                \<and> progress_stream task_id (w' # later) = ([], Stuck)"
    using b by (auto simp: progress_stream_def)
qed

text \<open>
  Two tasks in the store: the batch of \<open>t1\<close> runs to completion, then the batch of
  \<open>t2\<close>, the one site \<open>http://[\<close>, fails.
\<close>

definition demo_two_tasks :: world where
  "demo_two_tasks =
     \<lparr>tasks = [''t1'' \<mapsto> new_task demo_sites, ''t2'' \<mapsto> new_task demo_bad_site],
      lock_held = False, http_log = [], files = Map.empty\<rparr>"

definition demo_first_done :: world where
  "demo_first_done = final (run_scraping_task_thread demo_env ''t1'' demo_sites demo_two_tasks)"

lemma demo_second_fails:
  "(case scraping_task_body demo_env ''t2'' demo_bad_site demo_first_done of
      Raised e w1 \<Rightarrow> e = ''Invalid IPv6 URL'' \<and> \<not> lock_held w1
          \<and> map_option status (tasks w1 ''t1'') = Some Complete
          \<and> map_option filename (tasks w1 ''t1'') = Some (Some ''scraped_emails_t1.csv'')
          \<and> map_option status (tasks w1 ''t2'') = Some Processing
    | _ \<Rightarrow> False)"
  by code_simp

theorem C5_stream_blocked_after_failure_witness:
  "progress_stream ''t1''
     [demo_world (demo_task Processing [''Task initiated.''] None),
      demo_world (demo_task Processing [''Task initiated.'', ''x''] None),
      demo_world (demo_task Complete [''Task initiated.'', ''x'', ''y''] (Some ''f.csv''))]
   = ([''data: Task initiated.'' @ [CHR 0x0A, CHR 0x0A], ''data: x'' @ [CHR 0x0A, CHR 0x0A],
       ''data: y'' @ [CHR 0x0A, CHR 0x0A], ''data: COMPLETE:f.csv'' @ [CHR 0x0A, CHR 0x0A]],
      Closed)
   \<and> (\<exists>w1 w'. scraping_task_body demo_env ''t2'' demo_bad_site demo_first_done
          = Raised ''Invalid IPv6 URL'' w1
        \<and> snd (progress_stream ''t1'' [w1]) = Closed
        \<and> last (fst (progress_stream ''t1'' [w1]))
            = ''data: COMPLETE:scraped_emails_t1.csv'' @ [CHR 0x0A, CHR 0x0A]
        \<and> run_scraping_task_thread demo_env ''t2'' demo_bad_site demo_first_done = Blocked w'
        \<and> progress_stream ''t1'' [w'] = ([], Stuck))"
proof -
  have 1: "progress_stream ''t1''
     [demo_world (demo_task Processing [''Task initiated.''] None),
      demo_world (demo_task Processing [''Task initiated.'', ''x''] None),
      demo_world (demo_task Complete [''Task initiated.'', ''x'', ''y''] (Some ''f.csv''))]
   = ([''data: Task initiated.'' @ [CHR 0x0A, CHR 0x0A], ''data: x'' @ [CHR 0x0A, CHR 0x0A],
       ''data: y'' @ [CHR 0x0A, CHR 0x0A], ''data: COMPLETE:f.csv'' @ [CHR 0x0A, CHR 0x0A]],
      Closed)"
    using C5_stream_blocked_after_failure [of "''t1''"
      "[demo_world (demo_task Processing [''Task initiated.''] None),
        demo_world (demo_task Processing [''Task initiated.'', ''x''] None)]"
      "demo_world (demo_task Complete [''Task initiated.'', ''x'', ''y''] (Some ''f.csv''))"
      "demo_task Complete [''Task initiated.'', ''x'', ''y''] (Some ''f.csv'')"]
    by (simp add: observable_def running_def extends_def log_of_def demo_world_def demo_task_def
      str_opt_def)
  from demo_second_fails obtain w1 where
    body: "scraping_task_body demo_env ''t2'' demo_bad_site demo_first_done
        = Raised ''Invalid IPv6 URL'' w1"
    and w1: "\<not> lock_held w1" "map_option status (tasks w1 ''t1'') = Some Complete"
      "map_option filename (tasks w1 ''t1'') = Some (Some ''scraped_emails_t1.csv'')"
      "map_option status (tasks w1 ''t2'') = Some Processing"
    by (auto split: result.splits)
  from w1(2) obtain finished where fin: "tasks w1 ''t1'' = Some finished" "status finished = Complete"
    by auto
  from w1(3) fin(1) have artifact: "filename finished = Some ''scraped_emails_t1.csv''" by simp
  from w1(4) obtain failed where failed: "tasks w1 ''t2'' = Some failed" by auto
  have ne: "''t2'' \<noteq> ''t1''" by simp
  from C5_stream_blocked_after_failure [where task_id = "''t1''" and ?w1.0 = w1
      and failed_id = "''t2''" and env = demo_env and sites = demo_bad_site
      and ?w0.0 = demo_first_done and e = "''Invalid IPv6 URL''" and later = "[]"
      and polls = "[]" and w = w1 and t = finished and failed = failed and finished = finished]
    fin w1(1) ne failed body
  have "progress_stream ''t1'' [w1]
            = (map (\<lambda>line. ''data: '' @ line @ [CHR 0x0A, CHR 0x0A])
                 (progress_messages finished)
                 @ [''data: COMPLETE:''
                      @ (case filename finished of None \<Rightarrow> ''None'' | Some name \<Rightarrow> name)
                      @ [CHR 0x0A, CHR 0x0A]],
               Closed)
          \<and> (\<exists>w'. run_scraping_task_thread demo_env ''t2'' demo_bad_site demo_first_done
                  = Blocked w'
                \<and> tasks w' ''t1'' = Some finished
                \<and> progress_stream ''t1'' [w'] = ([], Stuck))"
    by blast
  then have 2: "\<exists>w'. snd (progress_stream ''t1'' [w1]) = Closed
        \<and> last (fst (progress_stream ''t1'' [w1]))
            = ''data: COMPLETE:scraped_emails_t1.csv'' @ [CHR 0x0A, CHR 0x0A]
        \<and> run_scraping_task_thread demo_env ''t2'' demo_bad_site demo_first_done = Blocked w'
        \<and> progress_stream ''t1'' [w'] = ([], Stuck)"
    using artifact by auto
  from 1 2 body show ?thesis by blast
qed

end
